theory Spec2Isabelle
  imports Main "HOL-Library.Multiset"
begin

section \<open>Data model (models/tile.ts, models/game-state.ts)\<close>

text \<open>
  The engine is the class \<open>GameService\<close> of game.service.ts. Its numbers are modelled as
  integers (\<open>int\<close>): coordinates, dimensions and the mine count may be negative or zero,
  and the code tolerates that. Counts that the code obtains as the length of an array
  (\<open>adjacentMines\<close>) are natural numbers. An array is a list, a matrix a list of rows;
  \<open>board[y][x]\<close> is \<open>b ! y ! x\<close>. Every command of the service reads the current
  snapshot and either commits a new one (\<open>_state$.next\<close>) or returns early: a command is
  a function from the snapshot to the snapshot that follows it.

  The field names \<open>x\<close> and \<open>y\<close> of a tile are written \<open>tile_x\<close> and \<open>tile_y\<close>.
\<close>

record tile =
  tile_x :: int
  tile_y :: int
  isMine :: bool
  isRevealed :: bool
  isFlagged :: bool
  adjacentMines :: nat

type_synonym board = "tile list list"

datatype Difficulty = Beginner | Intermediate | Expert | Custom

datatype GameStatus = Ready | Playing | Won | Lost

record GameState =
  board :: board
  rows :: int
  cols :: int
  mines :: int
  flagsPlaced :: int
  status :: GameStatus
  firstClick :: bool
  startedAt :: "int option"
  elapsedMs :: int
  minesLeft :: int
  difficulty :: Difficulty
  hintsLeft :: int

section \<open>Helpers of the service\<close>

text \<open>
  \<open>createMatrix\<close>: \<open>Array.from({length: n}, ...)\<close> has no element when \<open>n \<le> 0\<close>, and it
  throws a \<open>RangeError\<close> when \<open>n\<close> is \<open>2^32\<close> or more, before it builds anything. The
  outer call throws when \<open>rows \<ge> 2^32\<close>; the inner call runs once per row, so it throws
  when there is a row and \<open>cols \<ge> 2^32\<close>. \<open>createMatrix_throws\<close> says when the call
  throws; \<open>createMatrix\<close> is the matrix it returns when it does not, and so is
  \<open>initialState\<close> for the snapshot. The commands that build a board, \<open>newGame\<close> and
  \<open>restart\<close>, have the error as a branch.
\<close>

datatype js_error = RangeError

definition createMatrix_throws :: "int \<Rightarrow> int \<Rightarrow> bool" where
  "createMatrix_throws r c = (r \<ge> 4294967296 \<or> (r > 0 \<and> c \<ge> 4294967296))"

definition createMatrix :: "int \<Rightarrow> int \<Rightarrow> (int \<Rightarrow> int \<Rightarrow> 'a) \<Rightarrow> 'a list list" where
  "createMatrix r c factory = map (\<lambda>y. map (\<lambda>x. factory y x) [0..c - 1]) [0..r - 1]"

definition initialState :: "int \<Rightarrow> int \<Rightarrow> int \<Rightarrow> Difficulty \<Rightarrow> GameState" where
  "initialState r c m d =
     \<lparr> board = createMatrix r c (\<lambda>y x.
         \<lparr> tile_x = x, tile_y = y, isMine = False, isRevealed = False,
           isFlagged = False, adjacentMines = 0 \<rparr>),
       rows = r, cols = c, mines = m,
       flagsPlaced = 0, status = Ready, firstClick = True,
       startedAt = None, elapsedMs = 0, minesLeft = m,
       difficulty = d, hintsLeft = 3 \<rparr>"

text \<open>
  \<open>newGame\<close> replaces the snapshot, whatever it was, by the initial state; it checks
  nothing itself. Its result is \<open>Inr\<close> of the snapshot it commits, or \<open>Inl\<close> of the error
  thrown while the board is built, before anything is committed. \<open>restart\<close> calls it
  with the dimensions of the current snapshot. \<open>snapshot_after s res\<close> is the snapshot of
  the service after a call with result \<open>res\<close> made at snapshot \<open>s\<close>: an error leaves
  \<open>s\<close> in place.
\<close>

definition newGame ::
  "GameState \<Rightarrow> int \<Rightarrow> int \<Rightarrow> int \<Rightarrow> Difficulty \<Rightarrow> js_error + GameState" where
  "newGame s r c m d =
     (if createMatrix_throws r c then Inl RangeError else Inr (initialState r c m d))"

definition restart :: "GameState \<Rightarrow> js_error + GameState" where
  "restart s = newGame s (rows s) (cols s) (mines s) (difficulty s)"

definition snapshot_after :: "GameState \<Rightarrow> js_error + GameState \<Rightarrow> GameState" where
  "snapshot_after s res = (case res of Inl e \<Rightarrow> s | Inr s' \<Rightarrow> s')"

definition tileAt :: "GameState \<Rightarrow> int \<Rightarrow> int \<Rightarrow> tile option" where
  "tileAt s y x =
     (if y < 0 \<or> y \<ge> rows s \<or> x < 0 \<or> x \<ge> cols s then None
      else Some (board s ! nat y ! nat x))"

text \<open>The assignment \<open>board[y][x] = t\<close> on a matrix whose rows were copied.\<close>

definition set_tile :: "board \<Rightarrow> int \<Rightarrow> int \<Rightarrow> tile \<Rightarrow> board" where
  "set_tile b y x t = b[nat y := (b ! nat y)[nat x := t]]"

text \<open>The eight offsets \<open>(dx, dy)\<close> in the order in which the nested iteration visits them
  (\<open>dy\<close> outside, \<open>dx\<close> inside, the centre skipped), and all nine of them.\<close>

definition offsets8 :: "(int \<times> int) list" where
  "offsets8 = [(-1,-1), (0,-1), (1,-1), (-1,0), (1,0), (-1,1), (0,1), (1,1)]"

definition offsets9 :: "(int \<times> int) list" where
  "offsets9 = [(-1,-1), (0,-1), (1,-1), (-1,0), (0,0), (1,0), (-1,1), (0,1), (1,1)]"

definition neighbors :: "board \<Rightarrow> int \<Rightarrow> int \<Rightarrow> tile list" where
  "neighbors b x y =
     map (\<lambda>(dx, dy). b ! nat (y + dy) ! nat (x + dx))
       (filter (\<lambda>(dx, dy). y + dy \<ge> 0 \<and> y + dy < int (length b)
                          \<and> x + dx \<ge> 0 \<and> x + dx < int (length (b ! 0)))
          offsets8)"

text \<open>\<open>recalculateAdjacency\<close> rewrites the tiles one by one, in row-major order, each time
  reading the neighbours from the matrix as it is at that moment. On a matrix without rows
  the outer loop does not run (\<open>row_major 0 c\<close> is empty for every \<open>c\<close>).\<close>

definition recalc_tile :: "board \<Rightarrow> int \<times> int \<Rightarrow> board" where
  "recalc_tile b p =
     (case p of (x, y) \<Rightarrow>
        let t = b ! nat y ! nat x in
        if isMine t then set_tile b y x (t\<lparr>adjacentMines := 0\<rparr>)
        else set_tile b y x
               (t\<lparr>adjacentMines := length (filter isMine (neighbors b x y))\<rparr>))"

definition row_major :: "int \<Rightarrow> int \<Rightarrow> (int \<times> int) list" where
  "row_major r c = concat (map (\<lambda>y. map (\<lambda>x. (x, y)) [0..c - 1]) [0..r - 1])"

definition recalculateAdjacency :: "board \<Rightarrow> board" where
  "recalculateAdjacency b =
     foldl recalc_tile b (row_major (int (length b)) (int (length (b ! 0))))"

definition revealAllMines :: "board \<Rightarrow> board" where
  "revealAllMines b = map (map (\<lambda>t. if isMine t then t\<lparr>isRevealed := True\<rparr> else t)) b"

definition countHiddenNonMines :: "board \<Rightarrow> nat" where
  "countHiddenNonMines b = length (filter (\<lambda>t. \<not> isMine t \<and> \<not> isRevealed t) (concat b))"

section \<open>Mine placement\<close>

text \<open>
  \<open>Math.random\<close> is the one source of nondeterminism. The shuffle draws, at loop index
  \<open>i\<close>, the integer \<open>Math.floor(Math.random() * (i + 1))\<close>, any value of \<open>0..i\<close>. The
  model takes the draws as a parameter \<open>rnd\<close>: the draw at index \<open>i\<close> is
  \<open>rnd i mod (i + 1)\<close>, so every function \<open>rnd\<close> is an outcome and every outcome is given by
  some \<open>rnd\<close>. The destructuring swap evaluates both right-hand sides first.
\<close>

fun shuffle_loop :: "(nat \<Rightarrow> nat) \<Rightarrow> nat \<Rightarrow> 'a list \<Rightarrow> 'a list" where
  "shuffle_loop rnd 0 xs = xs"
| "shuffle_loop rnd (Suc i) xs =
     (let j = rnd (Suc i) mod (Suc i + 1)
      in shuffle_loop rnd i (xs[Suc i := xs ! j, j := xs ! Suc i]))"

definition shuffle :: "(nat \<Rightarrow> nat) \<Rightarrow> 'a list \<Rightarrow> 'a list" where
  "shuffle rnd xs = shuffle_loop rnd (length xs - 1) xs"

text \<open>\<open>xs.slice(0, e)\<close>: a negative end counts from the end of the array, and the end is
  clamped to the array.\<close>

definition slice0 :: "'a list \<Rightarrow> int \<Rightarrow> 'a list" where
  "slice0 xs e = take (nat (if e < 0 then int (length xs) + e else e)) xs"

definition forbidden_cells :: "GameState \<Rightarrow> int \<Rightarrow> int \<Rightarrow> int list" where
  "forbidden_cells s safeX safeY =
     map (\<lambda>(dx, dy). (safeY + dy) * cols s + (safeX + dx))
       (filter (\<lambda>(dx, dy). safeY + dy \<ge> 0 \<and> safeY + dy < rows s
                          \<and> safeX + dx \<ge> 0 \<and> safeX + dx < cols s)
          offsets9)"

text \<open>The body of the marking loop at index \<open>i\<close>. The index is never negative, and the
  remainder \<open>i % cols\<close> is \<open>i mod cols\<close> for the positive \<open>cols\<close> of every board that has a
  tile to click.\<close>

definition mark_mine :: "int \<Rightarrow> int list \<Rightarrow> board \<Rightarrow> int \<Rightarrow> board" where
  "mark_mine c minePositions b i =
     (let y = i div c; x = i mod c
      in if i \<in> set minePositions
         then set_tile b y x ((b ! nat y ! nat x)\<lparr>isMine := True\<rparr>)
         else b)"

text \<open>\<open>placeMinesAfterFirstClick\<close>, in two parts: the computation of the set
  \<open>minePositions\<close> (the candidates are the indices outside the forbidden set, shuffled),
  and the marking of the board followed by the adjacency counts.\<close>

definition minePositions :: "(nat \<Rightarrow> nat) \<Rightarrow> GameState \<Rightarrow> int \<Rightarrow> int \<Rightarrow> int list" where
  "minePositions rnd s safeX safeY =
     (let total = rows s * cols s;
          indices = [0..total - 1];
          forbidden = forbidden_cells s safeX safeY;
          candidates = shuffle rnd (filter (\<lambda>i. i \<notin> set forbidden) indices)
      in slice0 candidates (mines s))"

definition placeMinesAfterFirstClick ::
  "(nat \<Rightarrow> nat) \<Rightarrow> GameState \<Rightarrow> int \<Rightarrow> int \<Rightarrow> GameState" where
  "placeMinesAfterFirstClick rnd s safeX safeY =
     (let total = rows s * cols s;
          indices = [0..total - 1];
          b = foldl (mark_mine (cols s) (minePositions rnd s safeX safeY)) (board s) indices
      in s\<lparr>board := recalculateAdjacency b\<rparr>)"

section \<open>Flood fill\<close>

text \<open>
  The queue and the visited set of \<open>revealFloodFill\<close>; the keys \<open>y + ':' + x\<close> of the
  visited set are the pairs \<open>(x, y)\<close>. \<open>enqueue\<close> checks the bounds, then the visited set.
\<close>

definition enqueue ::
  "int \<Rightarrow> int \<Rightarrow> (int \<times> int) list \<times> (int \<times> int) list \<Rightarrow> int \<times> int
     \<Rightarrow> (int \<times> int) list \<times> (int \<times> int) list" where
  "enqueue r c qv p =
     (case qv of (queue, visited) \<Rightarrow>
        case p of (x, y) \<Rightarrow>
          if x < 0 \<or> x \<ge> c \<or> y < 0 \<or> y \<ge> r then qv
          else if p \<in> set visited then qv
          else (queue @ [p], p # visited))"

definition around :: "int \<Rightarrow> int \<Rightarrow> (int \<times> int) list" where
  "around x y = map (\<lambda>(dx, dy). (x + dx, y + dy)) offsets8"

text \<open>The cells of a matrix of \<open>r\<close> rows and \<open>c\<close> columns, as pairs \<open>(x, y)\<close>.\<close>

definition cells :: "int \<Rightarrow> int \<Rightarrow> (int \<times> int) set" where
  "cells r c = {0..<c} \<times> {0..<r}"

definition unvisited :: "int \<Rightarrow> int \<Rightarrow> (int \<times> int) list \<Rightarrow> (int \<times> int) set" where
  "unvisited r c visited = cells r c - set visited"

function flood_loop ::
  "int \<Rightarrow> int \<Rightarrow> board \<Rightarrow> (int \<times> int) list \<Rightarrow> (int \<times> int) list \<Rightarrow> board" where
  "flood_loop r c out [] visited = out"
| "flood_loop r c out ((x, y) # queue) visited =
     (let t = out ! nat y ! nat x in
      if isRevealed t \<or> isFlagged t then flood_loop r c out queue visited
      else
        let out' = set_tile out y x (t\<lparr>isRevealed := True\<rparr>) in
        if adjacentMines t = 0 \<and> \<not> isMine t
        then (case foldl (enqueue r c) (queue, visited) (around x y) of
                (queue', visited') \<Rightarrow> flood_loop r c out' queue' visited')
        else flood_loop r c out' queue visited)"
  by pat_completeness auto
definition revealFloodFill :: "board \<Rightarrow> int \<Rightarrow> int \<Rightarrow> board" where
  "revealFloodFill b startX startY =
     (let r = int (length b); c = int (length (b ! 0))
      in case enqueue r c ([], []) (startX, startY) of
           (queue, visited) \<Rightarrow> flood_loop r c b queue visited)"

section \<open>Commands\<close>

text \<open>
  The commands below are the methods of the service, as functions of the snapshot. What
  they do outside the snapshot is left out: starting and stopping the timer's
  subscription (\<open>startTimer\<close>, \<open>stopTimer\<close>) and writing the best time to local storage
  (\<open>persistBestTime\<close>). The timer's effect on the snapshot is the function \<open>tick\<close>.
\<close>

definition toggleFlag :: "GameState \<Rightarrow> int \<Rightarrow> int \<Rightarrow> GameState" where
  "toggleFlag s x y =
     (if status s = Lost \<or> status s = Won then s
      else case tileAt s y x of
        None \<Rightarrow> s
      | Some t \<Rightarrow>
          if isRevealed t then s
          else
            let flagged = \<not> isFlagged t;
                b = set_tile (board s) (tile_y t) (tile_x t) (t\<lparr>isFlagged := flagged\<rparr>);
                fp = flagsPlaced s + (if flagged then 1 else - 1);
                ml = max 0 (mines s - fp)
            in s\<lparr>board := b, flagsPlaced := fp, minesLeft := ml\<rparr>)"

text \<open>\<open>reveal\<close>: \<open>now\<close> is the value of \<open>Date.now()\<close>. The tile \<open>t\<close> is read before the
  mines are placed and is not read again: the test \<open>t.isMine\<close> after a first click looks at
  the tile as it was before placement.\<close>

definition reveal :: "(nat \<Rightarrow> nat) \<Rightarrow> int \<Rightarrow> GameState \<Rightarrow> int \<Rightarrow> int \<Rightarrow> GameState" where
  "reveal rnd now s x y =
     (if status s = Lost \<or> status s = Won then s
      else case tileAt s y x of
        None \<Rightarrow> s
      | Some t \<Rightarrow>
          if isRevealed t \<or> isFlagged t then s
          else
            let s1 = (if firstClick s
                      then (placeMinesAfterFirstClick rnd s (tile_x t) (tile_y t))
                             \<lparr>status := Playing, firstClick := False, startedAt := Some now\<rparr>
                      else s)
            in if isMine t
               then s1\<lparr>board := revealAllMines (board s1), status := Lost\<rparr>
               else
                 let s2 = s1\<lparr>board := revealFloodFill (board s1) (tile_x t) (tile_y t)\<rparr>
                 in if countHiddenNonMines (board s2) = 0 then s2\<lparr>status := Won\<rparr> else s2)"

text \<open>The loop of \<open>chord\<close> over the neighbours: \<open>n\<close> is the tile as it was when the
  neighbours were collected, the matrix is the one the loop has built so far.\<close>

definition chord_step :: "board \<times> bool \<Rightarrow> tile \<Rightarrow> board \<times> bool" where
  "chord_step bh n =
     (case bh of (b, hitMine) \<Rightarrow>
        if \<not> isFlagged n \<and> \<not> isRevealed n
        then (if isMine n
              then (set_tile b (tile_y n) (tile_x n) (n\<lparr>isRevealed := True\<rparr>), True)
              else (revealFloodFill b (tile_x n) (tile_y n), hitMine))
        else bh)"

definition chord :: "GameState \<Rightarrow> int \<Rightarrow> int \<Rightarrow> GameState" where
  "chord s x y =
     (if status s \<noteq> Playing then s
      else case tileAt s y x of
        None \<Rightarrow> s
      | Some t \<Rightarrow>
          if \<not> isRevealed t \<or> isMine t \<or> adjacentMines t = 0 then s
          else
            let nbs = neighbors (board s) (tile_x t) (tile_y t);
                flags = length (filter isFlagged nbs)
            in if flags \<noteq> adjacentMines t then s
               else case foldl chord_step (board s, False) nbs of
                 (b, hitMine) \<Rightarrow>
                   if hitMine then s\<lparr>board := revealAllMines b, status := Lost\<rparr>
                   else
                     let s' = s\<lparr>board := b\<rparr>
                     in if countHiddenNonMines (board s') = 0 then s'\<lparr>status := Won\<rparr>
                        else s')"

text \<open>\<open>useHint\<close> scans the cells in row-major order and reveals the first one that is
  neither a mine nor revealed nor flagged; it returns from inside the loop.\<close>

definition hint_target :: "GameState \<Rightarrow> (int \<times> int) option" where
  "hint_target s =
     find (\<lambda>(x, y). let t = board s ! nat y ! nat x
                    in \<not> isMine t \<and> \<not> isRevealed t \<and> \<not> isFlagged t)
       (row_major (rows s) (cols s))"

definition useHint :: "(nat \<Rightarrow> nat) \<Rightarrow> int \<Rightarrow> GameState \<Rightarrow> GameState" where
  "useHint rnd now s =
     (if hintsLeft s \<le> 0 \<or> status s = Lost \<or> status s = Won then s
      else case hint_target s of
        None \<Rightarrow> s
      | Some (x, y) \<Rightarrow>
          let s' = reveal rnd now s x y
          in s'\<lparr>hintsLeft := max 0 (hintsLeft s' - 1)\<rparr>)"

text \<open>The body of the timer's subscription; \<open>!s.startedAt\<close> holds for an absent time and
  for the time 0.\<close>

definition tick :: "int \<Rightarrow> GameState \<Rightarrow> GameState" where
  "tick now s =
     (case startedAt s of
        None \<Rightarrow> s
      | Some t0 \<Rightarrow>
          if status s \<noteq> Playing \<or> t0 = 0 then s else s\<lparr>elapsedMs := now - t0\<rparr>)"

text \<open>The commands a player (or the timer) can issue, and the states they reach from a
  new game with a board (at least one row and one column; the mine count is not
  constrained, so that every stricter notion of a valid configuration is covered).\<close>

datatype command =
    NewGame int int int Difficulty
  | Restart
  | Reveal "nat \<Rightarrow> nat" int int int
  | ToggleFlag int int
  | Chord int int
  | UseHint "nat \<Rightarrow> nat" int
  | Tick int

fun player_command :: "command \<Rightarrow> bool" where
  "player_command (NewGame r c m d) = False"
| "player_command Restart = False"
| "player_command _ = True"

fun exec :: "command \<Rightarrow> GameState \<Rightarrow> GameState" where
  "exec (NewGame r c m d) s = snapshot_after s (newGame s r c m d)"
| "exec Restart s = snapshot_after s (restart s)"
| "exec (Reveal rnd now x y) s = reveal rnd now s x y"
| "exec (ToggleFlag x y) s = toggleFlag s x y"
| "exec (Chord x y) s = chord s x y"
| "exec (UseHint rnd now) s = useHint rnd now s"
| "exec (Tick now) s = tick now s"

fun valid_command :: "command \<Rightarrow> bool" where
  "valid_command (NewGame r c m d) = (r > 0 \<and> c > 0)"
| "valid_command _ = True"

inductive reachable :: "GameState \<Rightarrow> bool" where
  start: "r > 0 \<Longrightarrow> c > 0 \<Longrightarrow> reachable (initialState r c m d)"
| step: "reachable s \<Longrightarrow> valid_command cmd \<Longrightarrow> reachable (exec cmd s)"

section \<open>Notions of the specification\<close>

text \<open>
  The tile of a cell; a matrix of \<open>r\<close> rows of \<open>c\<close> tiles each; tiles that store their own
  position; and a snapshot whose board has the dimensions the snapshot records, with at
  least one cell. Every snapshot built by \<open>initialState\<close> from positive dimensions is of
  this kind, and every command keeps it so. Outside such snapshots the source reads
  \<open>undefined\<close> entries; no statement below is about them.
\<close>

definition cell :: "board \<Rightarrow> int \<times> int \<Rightarrow> tile" where
  "cell b p = b ! nat (snd p) ! nat (fst p)"

definition rect :: "board \<Rightarrow> int \<Rightarrow> int \<Rightarrow> bool" where
  "rect b r c = (int (length b) = r \<and> (\<forall>y \<in> {0..<length b}. int (length (b ! y)) = c))"

definition coords_ok :: "board \<Rightarrow> bool" where
  "coords_ok b = (\<forall>y \<in> {0..<length b}. \<forall>x \<in> {0..<length (b ! y)}.
      tile_x (b ! y ! x) = int x \<and> tile_y (b ! y ! x) = int y)"

definition wf_state :: "GameState \<Rightarrow> bool" where
  "wf_state s = (rows s > 0 \<and> cols s > 0 \<and> rect (board s) (rows s) (cols s)
      \<and> coords_ok (board s))"

text \<open>The in-bounds 8-neighbours of a cell, the number of mines among them, and boards
  whose adjacency counts are the ones \<open>recalculateAdjacency\<close> is meant to store.\<close>

definition adjacent_cells :: "int \<Rightarrow> int \<Rightarrow> int \<Rightarrow> int \<Rightarrow> (int \<times> int) set" where
  "adjacent_cells r c x y =
     {(nx, ny). \<bar>nx - x\<bar> \<le> 1 \<and> \<bar>ny - y\<bar> \<le> 1 \<and> (nx, ny) \<noteq> (x, y)
                \<and> 0 \<le> nx \<and> nx < c \<and> 0 \<le> ny \<and> ny < r}"

definition mine_count :: "board \<Rightarrow> int \<Rightarrow> int \<Rightarrow> int \<Rightarrow> int \<Rightarrow> nat" where
  "mine_count b r c x y = card {p \<in> adjacent_cells r c x y. isMine (cell b p)}"

definition consistent :: "board \<Rightarrow> int \<Rightarrow> int \<Rightarrow> bool" where
  "consistent b r c =
     (\<forall>(x, y) \<in> cells r c.
        adjacentMines (cell b (x, y)) =
          (if isMine (cell b (x, y)) then 0 else mine_count b r c x y))"

text \<open>\<open>only_reveals b b'\<close>: the matrix \<open>b'\<close> is \<open>b\<close> with some tiles that carry no flag
  marked as revealed, and nothing else changed.\<close>

definition only_reveals :: "board \<Rightarrow> board \<Rightarrow> int \<Rightarrow> int \<Rightarrow> bool" where
  "only_reveals b b' r c =
     (rect b' r c \<and>
      (\<forall>p \<in> cells r c. cell b' p = cell b p
          \<or> (\<not> isFlagged (cell b p) \<and> cell b' p = (cell b p)\<lparr>isRevealed := True\<rparr>)))"

text \<open>The cells whose tile is neither a mine nor revealed, and the invariant of the game:
  the board matches the dimensions, the adjacency counts are right, the status is
  \<open>Ready\<close> exactly until the first click and the board is then untouched, a revealed tile
  carries a flag only when it is a mine of a lost game, and the game is won exactly when
  no tile that is not a mine is hidden.\<close>

definition hidden_safe :: "board \<Rightarrow> int \<Rightarrow> int \<Rightarrow> (int \<times> int) set" where
  "hidden_safe b r c = {p \<in> cells r c. \<not> isMine (cell b p) \<and> \<not> isRevealed (cell b p)}"

definition game_inv :: "GameState \<Rightarrow> bool" where
  "game_inv s =
     (wf_state s \<and> consistent (board s) (rows s) (cols s)
      \<and> (status s = Ready \<longleftrightarrow> firstClick s)
      \<and> (status s = Ready \<longrightarrow>
            (\<forall>p \<in> cells (rows s) (cols s).
               \<not> isMine (cell (board s) p) \<and> \<not> isRevealed (cell (board s) p)))
      \<and> (\<forall>p \<in> cells (rows s) (cols s).
            isRevealed (cell (board s) p) \<and> isFlagged (cell (board s) p) \<longrightarrow>
              isMine (cell (board s) p) \<and> status s = Lost)
      \<and> (status s = Won \<longleftrightarrow> hidden_safe (board s) (rows s) (cols s) = {}))"

text \<open>The changes of status that one command can make: none, from \<open>Ready\<close> to
  \<open>Playing\<close> or \<open>Won\<close>, from \<open>Playing\<close> to \<open>Won\<close> or \<open>Lost\<close>.\<close>

definition status_moves :: "GameStatus \<Rightarrow> GameStatus \<Rightarrow> bool" where
  "status_moves a b =
     (b = a \<or> (a = Ready \<and> (b = Playing \<or> b = Won)) \<or> (a = Playing \<and> (b = Won \<or> b = Lost)))"

text \<open>
  Notions for the flood fill. Two cells are adjacent when they differ and are at most one
  step apart in each direction. A tile spreads the fill when it is hidden, unflagged, not
  a mine and has no adjacent mine. \<open>fill_reach\<close> is the set of cells the fill comes to:
  the start, and the in-bounds neighbours of every cell it comes to whose tile spreads.
  \<open>zero_region\<close> is the maximal 8-connected region of tiles with \<open>adjacentMines = 0\<close> that
  contains the start, \<open>region_border\<close> the cells next to that region. \<open>fill_inv\<close> is the
  invariant of the loop of \<open>revealFloodFill\<close>, for the board \<open>b\<close> it started from.
\<close>

definition adjacent :: "int \<times> int \<Rightarrow> int \<times> int \<Rightarrow> bool" where
  "adjacent p q = (q \<noteq> p \<and> \<bar>fst q - fst p\<bar> \<le> 1 \<and> \<bar>snd q - snd p\<bar> \<le> 1)"

definition spreads :: "board \<Rightarrow> int \<times> int \<Rightarrow> bool" where
  "spreads b p = (\<not> isRevealed (cell b p) \<and> \<not> isFlagged (cell b p)
                  \<and> adjacentMines (cell b p) = 0 \<and> \<not> isMine (cell b p))"

inductive_set fill_reach :: "board \<Rightarrow> int \<Rightarrow> int \<Rightarrow> int \<times> int \<Rightarrow> (int \<times> int) set"
  for b :: board and r :: int and c :: int and start :: "int \<times> int" where
    origin: "start \<in> cells r c \<Longrightarrow> start \<in> fill_reach b r c start"
  | onward: "p \<in> fill_reach b r c start \<Longrightarrow> spreads b p \<Longrightarrow> q \<in> cells r c \<Longrightarrow> adjacent p q
            \<Longrightarrow> q \<in> fill_reach b r c start"

inductive_set zero_region :: "board \<Rightarrow> int \<Rightarrow> int \<Rightarrow> int \<times> int \<Rightarrow> (int \<times> int) set"
  for b :: board and r :: int and c :: int and start :: "int \<times> int" where
    origin: "start \<in> cells r c \<Longrightarrow> adjacentMines (cell b start) = 0
            \<Longrightarrow> start \<in> zero_region b r c start"
  | onward: "p \<in> zero_region b r c start \<Longrightarrow> q \<in> cells r c \<Longrightarrow> adjacent p q
            \<Longrightarrow> adjacentMines (cell b q) = 0 \<Longrightarrow> q \<in> zero_region b r c start"

definition region_border :: "board \<Rightarrow> int \<Rightarrow> int \<Rightarrow> int \<times> int \<Rightarrow> (int \<times> int) set" where
  "region_border b r c start = {q \<in> cells r c. \<exists>p \<in> zero_region b r c start. adjacent p q}"

definition fill_inv ::
  "board \<Rightarrow> int \<Rightarrow> int \<Rightarrow> int \<times> int \<Rightarrow> board \<Rightarrow> (int \<times> int) list \<Rightarrow> (int \<times> int) list \<Rightarrow> bool" where
  "fill_inv b r c start out queue visited =
     (rect out r c
      \<and> set visited \<subseteq> fill_reach b r c start
      \<and> set queue \<subseteq> set visited \<and> distinct queue
      \<and> (\<forall>p \<in> cells r c. cell out p =
            (if p \<in> set visited - set queue \<and> \<not> isRevealed (cell b p) \<and> \<not> isFlagged (cell b p)
             then (cell b p)\<lparr>isRevealed := True\<rparr> else cell b p))
      \<and> (\<forall>p \<in> set visited - set queue. spreads b p \<longrightarrow>
            (\<forall>q \<in> cells r c. adjacent p q \<longrightarrow> q \<in> set visited))
      \<and> (start \<in> cells r c \<longrightarrow> start \<in> set visited))"

text \<open>A sequence of commands, and a game in which two flags, set before the first click
  and removed after it, have left a revealed tile between hidden ones.\<close>

definition run :: "command list \<Rightarrow> GameState \<Rightarrow> GameState" where
  "run cmds s = foldl (\<lambda>s cmd. exec cmd s) s cmds"

definition walled_game :: GameState where
  "walled_game = run [ToggleFlag 1 0, ToggleFlag 3 0, Reveal (\<lambda>i. 0) 7 2 0,
                      ToggleFlag 1 0, ToggleFlag 3 0] (initialState 1 5 0 Custom)"

section \<open>Termination of the flood fill\<close>

lemma enqueue_measure:
  "enqueue r c (q, v) p = (q', v') \<Longrightarrow>
     2 * card (unvisited r c v') + length q' \<le> 2 * card (unvisited r c v) + length q"
proof (cases "p \<in> unvisited r c v")
  case True
  assume e: "enqueue r c (q, v) p = (q', v')"
  from True e have qv: "q' = q @ [p]" "v' = p # v"
    by (auto simp: enqueue_def unvisited_def cells_def split: prod.splits if_splits)
  have fin: "finite (unvisited r c v)" by (simp add: unvisited_def cells_def)
  have "unvisited r c v' = unvisited r c v - {p}"
    by (auto simp: qv unvisited_def)
  with True fin have "card (unvisited r c v') = card (unvisited r c v) - 1"
    by simp
  moreover from True fin have "card (unvisited r c v) > 0"
    by (auto simp: card_gt_0_iff)
  ultimately show ?thesis by (simp add: qv)
next
  case False
  assume e: "enqueue r c (q, v) p = (q', v')"
  from False e have "q' = q" "v' = v"
    by (auto simp: enqueue_def unvisited_def cells_def split: prod.splits if_splits)
  then show ?thesis by simp
qed

lemma enqueue_all_measure:
  "foldl (enqueue r c) (q, v) ps = (q', v') \<Longrightarrow>
     2 * card (unvisited r c v') + length q' \<le> 2 * card (unvisited r c v) + length q"
proof (induction ps arbitrary: q v)
  case Nil
  then show ?case by simp
next
  case (Cons p ps)
  obtain q1 v1 where e: "enqueue r c (q, v) p = (q1, v1)" by (cases "enqueue r c (q, v) p")
  from Cons.prems e have "foldl (enqueue r c) (q1, v1) ps = (q', v')" by simp
  from Cons.IH [OF this] enqueue_measure [OF e] show ?case by linarith
qed

termination flood_loop
proof (relation "measure (\<lambda>(r, c, out, queue, visited).
                   2 * card (unvisited r c visited) + length queue)", goal_cases)
  case 1
  then show ?case by simp
next
  case 2
  then show ?case by simp
next
  case prems: (3 r c out x y queue visited t out' queue' visited')
  then have "foldl (enqueue r c) (queue, visited) (around x y) = (queue', visited')"
    by simp
  from enqueue_all_measure [OF this] show ?case by simp
next
  case 4
  then show ?case by simp
qed


section \<open>Boards as matrices\<close>

lemma cells_iff [simp]: "(x, y) \<in> cells r c \<longleftrightarrow> 0 \<le> x \<and> x < c \<and> 0 \<le> y \<and> y < r"
  by (auto simp: cells_def)

lemma finite_cells [simp]: "finite (cells r c)"
  by (simp add: cells_def)

lemma cell_simp: "cell b (x, y) = b ! nat y ! nat x"
  by (simp add: cell_def)

lemma rect_length: "rect b r c \<Longrightarrow> int (length b) = r"
  by (simp add: rect_def)

lemma rect_row: "rect b r c \<Longrightarrow> int y < r \<Longrightarrow> int (length (b ! y)) = c"
  by (auto simp: rect_def)

lemma rect_row0: "rect b r c \<Longrightarrow> r > 0 \<Longrightarrow> int (length (b ! 0)) = c"
  by (auto simp: rect_def)

lemma length_set_tile [simp]: "length (set_tile b y x t) = length b"
  by (simp add: set_tile_def)

lemma length_set_tile_row [simp]:
  "i < length b \<Longrightarrow> length (set_tile b y x t ! i) = length (b ! i)"
  by (cases "nat y < length b") (simp_all add: set_tile_def nth_list_update)

lemma rect_set_tile [simp]: "rect (set_tile b y x t) r c = rect b r c"
  by (simp add: rect_def)

lemma rectD:
  assumes "rect b r c" and "(x, y) \<in> cells r c"
  shows "nat y < length b" and "nat x < length (b ! nat y)"
proof -
  from assms show y: "nat y < length b" by (auto simp: rect_def)
  with assms(1) have "int (length (b ! nat y)) = c" by (simp add: rect_def)
  with assms(2) show "nat x < length (b ! nat y)" by auto
qed

lemma cell_set_tile:
  assumes "rect b r c" and "(x, y) \<in> cells r c" and "p \<in> cells r c"
  shows "cell (set_tile b y x t) p = (if p = (x, y) then t else cell b p)"
proof -
  obtain x' y' where p: "p = (x', y')" by (cases p)
  note d = rectD [OF assms(1,2)] rectD [OF assms(1) assms(3) [unfolded p]]
  from assms(2) assms(3) [unfolded p]
  have "nat y = nat y' \<longleftrightarrow> y = y'" "nat x = nat x' \<longleftrightarrow> x = x'" by auto
  with d show ?thesis by (auto simp: p cell_simp set_tile_def nth_list_update)
qed

lemma board_eqI:
  assumes b: "rect b r c" and b': "rect b' r c"
    and eq: "\<And>p. p \<in> cells r c \<Longrightarrow> cell b p = cell b' p"
  shows "b = b'"
proof (rule nth_equalityI)
  show "length b = length b'" using b b' by (simp add: rect_def)
next
  fix y assume y: "y < length b"
  then have yr: "int y < r" using b by (auto simp: rect_def)
  show "b ! y = b' ! y"
  proof (rule nth_equalityI)
    show "length (b ! y) = length (b' ! y)"
      using rect_row [OF b yr] rect_row [OF b' yr] by simp
  next
    fix x assume "x < length (b ! y)"
    then have xc: "int x < c" using rect_row [OF b yr] by simp
    from eq [of "(int x, int y)"] xc yr show "b ! y ! x = b' ! y ! x" by (simp add: cell_simp)
  qed
qed

lemma coords_okD:
  assumes "coords_ok b" and "rect b r c" and "(x, y) \<in> cells r c"
  shows "tile_x (cell b (x, y)) = x \<and> tile_y (cell b (x, y)) = y"
proof -
  note d = rectD [OF assms(2,3)]
  from assms(1) d have "tile_x (b ! nat y ! nat x) = int (nat x)
      \<and> tile_y (b ! nat y ! nat x) = int (nat y)"
    by (simp add: coords_ok_def)
  with assms(3) show ?thesis by (simp add: cell_simp)
qed

lemma coords_okI:
  assumes "rect b r c"
    and "\<And>x y. (x, y) \<in> cells r c \<Longrightarrow> tile_x (cell b (x, y)) = x \<and> tile_y (cell b (x, y)) = y"
  shows "coords_ok b"
  unfolding coords_ok_def
proof (intro ballI)
  fix y x assume "y \<in> {0..<length b}" "x \<in> {0..<length (b ! y)}"
  with assms(1) have "(int x, int y) \<in> cells r c" by (auto simp: rect_def)
  from assms(2) [OF this] show "tile_x (b ! y ! x) = int x \<and> tile_y (b ! y ! x) = int y"
    by (simp add: cell_simp)
qed

lemma upto_nth: "int i < n \<Longrightarrow> [0..n - 1] ! i = int i"
  by simp

lemma rect_createMatrix: "0 \<le> r \<Longrightarrow> 0 \<le> c \<Longrightarrow> rect (createMatrix r c f) r c"
  by (auto simp: rect_def createMatrix_def upto_nth)

lemma cell_createMatrix:
  assumes "(x, y) \<in> cells r c"
  shows "cell (createMatrix r c f) (x, y) = f y x"
proof -
  from assms have "int (nat y) < r" "int (nat x) < c" "0 \<le> x" "0 \<le> y" by auto
  then show ?thesis by (simp add: cell_simp createMatrix_def upto_nth)
qed

lemma wf_initialState:
  assumes "r > 0" and "c > 0"
  shows "wf_state (initialState r c m d)"
proof -
  let ?b = "board (initialState r c m d)"
  have r: "rect ?b r c" using assms by (simp add: initialState_def rect_createMatrix)
  have "coords_ok ?b"
  proof (rule coords_okI [OF r])
    fix x y assume "(x, y) \<in> cells r c"
    then show "tile_x (cell ?b (x, y)) = x \<and> tile_y (cell ?b (x, y)) = y"
      by (simp add: initialState_def cell_createMatrix)
  qed
  with r assms show ?thesis by (simp add: wf_state_def initialState_def)
qed

lemma set_around:
  "set (around x y) = {(nx, ny). \<bar>nx - x\<bar> \<le> 1 \<and> \<bar>ny - y\<bar> \<le> 1 \<and> (nx, ny) \<noteq> (x, y)}"
  (is "?L = ?R")
proof
  show "?L \<subseteq> ?R" by (auto simp: around_def offsets8_def)
next
  show "?R \<subseteq> ?L"
  proof
    fix p assume "p \<in> ?R"
    then obtain nx ny where p: "p = (nx, ny)" and a: "\<bar>nx - x\<bar> \<le> 1" "\<bar>ny - y\<bar> \<le> 1"
      and ne: "(nx, ny) \<noteq> (x, y)" by auto
    from a have "nx = x - 1 \<or> nx = x \<or> nx = x + 1" "ny = y - 1 \<or> ny = y \<or> ny = y + 1"
      by auto
    with ne show "p \<in> ?L" unfolding p around_def offsets8_def by auto
  qed
qed

lemma distinct_around: "distinct (around x y)"
  by (simp add: around_def offsets8_def)

lemma set_around_cells:
  "set (filter (\<lambda>p. p \<in> cells r c) (around x y)) = adjacent_cells r c x y"
  by (auto simp: set_around adjacent_cells_def)

lemma neighbors_cells:
  assumes "rect b r c"
  shows "neighbors b x y = map (cell b) (filter (\<lambda>p. p \<in> cells r c) (around x y))"
proof -
  from assms have d: "int (length b) = r" "r > 0 \<Longrightarrow> int (length (b ! 0)) = c"
    by (auto simp: rect_def)
  have P: "(\<lambda>(dx, dy). y + dy \<ge> 0 \<and> y + dy < int (length b)
                \<and> x + dx \<ge> 0 \<and> x + dx < int (length (b ! 0)))
         = (\<lambda>(dx, dy). (x + dx, y + dy) \<in> cells r c)"
  proof (cases "r > 0")
    case True
    with d show ?thesis by (auto simp: fun_eq_iff)
  next
    case False
    with d show ?thesis by (auto simp: fun_eq_iff)
  qed
  have G: "(\<lambda>(dx, dy). b ! nat (y + dy) ! nat (x + dx))
         = (\<lambda>(dx, dy). cell b (x + dx, y + dy))"
    by (simp add: cell_simp)
  show ?thesis
    unfolding neighbors_def around_def P G
    by (simp add: filter_map o_def case_prod_unfold)
qed

lemma count_neighbors:
  assumes "rect b r c"
  shows "length (filter P (neighbors b x y)) = card {p \<in> adjacent_cells r c x y. P (cell b p)}"
proof -
  let ?ps = "filter (\<lambda>p. p \<in> cells r c) (around x y)"
  have "length (filter P (neighbors b x y)) = length (filter (\<lambda>p. P (cell b p)) ?ps)"
    by (simp add: neighbors_cells [OF assms] filter_map o_def)
  also have "\<dots> = card (set (filter (\<lambda>p. P (cell b p)) ?ps))"
    by (rule distinct_card [symmetric]) (simp add: distinct_around)
  also have "set (filter (\<lambda>p. P (cell b p)) ?ps) = {p \<in> adjacent_cells r c x y. P (cell b p)}"
    using set_around_cells [of r c x y] by auto
  finally show ?thesis .
qed

lemma mset_shuffle_loop: "i < length xs \<or> i = 0 \<Longrightarrow> mset (shuffle_loop rnd i xs) = mset xs"
proof (induction i arbitrary: xs)
  case 0
  then show ?case by simp
next
  case (Suc i)
  let ?j = "rnd (Suc i) mod (Suc i + 1)"
  from Suc.prems have l: "Suc i < length xs" by simp
  have "?j < Suc (Suc i)" by simp
  with l have j: "?j < length xs" by linarith
  have "mset (xs[Suc i := xs ! ?j, ?j := xs ! Suc i]) = mset xs"
    using j l by (rule mset_swap)
  moreover have "mset (shuffle_loop rnd i (xs[Suc i := xs ! ?j, ?j := xs ! Suc i]))
      = mset (xs[Suc i := xs ! ?j, ?j := xs ! Suc i])"
    using l by (intro Suc.IH) simp
  ultimately show ?case by (simp add: Let_def)
qed

lemma set_shuffle [simp]: "set (shuffle rnd xs) = set xs"
proof -
  have "mset (shuffle rnd xs) = mset xs"
    unfolding shuffle_def by (rule mset_shuffle_loop) (cases xs, auto)
  then show ?thesis by (rule mset_eq_setD)
qed

lemma set_slice0: "set (slice0 xs e) \<subseteq> set xs"
  by (simp add: slice0_def set_take_subset)

section \<open>Frame and flag toggling\<close>

lemma placeMines_frame [simp]:
  "rows (placeMinesAfterFirstClick rnd s x y) = rows s"
  "cols (placeMinesAfterFirstClick rnd s x y) = cols s"
  "mines (placeMinesAfterFirstClick rnd s x y) = mines s"
  "difficulty (placeMinesAfterFirstClick rnd s x y) = difficulty s"
  "hintsLeft (placeMinesAfterFirstClick rnd s x y) = hintsLeft s"
  "flagsPlaced (placeMinesAfterFirstClick rnd s x y) = flagsPlaced s"
  "minesLeft (placeMinesAfterFirstClick rnd s x y) = minesLeft s"
  "status (placeMinesAfterFirstClick rnd s x y) = status s"
  "firstClick (placeMinesAfterFirstClick rnd s x y) = firstClick s"
  by (simp_all add: placeMinesAfterFirstClick_def Let_def)

lemma reveal_frame:
  "rows (reveal rnd now s x y) = rows s \<and> cols (reveal rnd now s x y) = cols s
   \<and> mines (reveal rnd now s x y) = mines s
   \<and> difficulty (reveal rnd now s x y) = difficulty s"
  by (simp add: reveal_def Let_def split: option.split)

lemma toggleFlag_frame:
  "rows (toggleFlag s x y) = rows s \<and> cols (toggleFlag s x y) = cols s
   \<and> mines (toggleFlag s x y) = mines s
   \<and> difficulty (toggleFlag s x y) = difficulty s"
  by (simp add: toggleFlag_def Let_def split: option.split)

lemma chord_frame:
  "rows (chord s x y) = rows s \<and> cols (chord s x y) = cols s
   \<and> mines (chord s x y) = mines s
   \<and> difficulty (chord s x y) = difficulty s"
  by (simp add: chord_def Let_def split: option.split prod.split)

lemma useHint_frame:
  "rows (useHint rnd now s) = rows s \<and> cols (useHint rnd now s) = cols s
   \<and> mines (useHint rnd now s) = mines s
   \<and> difficulty (useHint rnd now s) = difficulty s"
  by (simp add: useHint_def Let_def reveal_frame split: option.split prod.split)

text \<open>
  Claim C9. Each of \<open>reveal\<close>, \<open>toggleFlag\<close>, \<open>chord\<close> and \<open>useHint\<close> leaves the fields
  \<open>rows\<close>, \<open>cols\<close>, \<open>mines\<close> and \<open>difficulty\<close> of the snapshot as they were, whatever the
  snapshot, the coordinates, the random draws and the clock.
\<close>

theorem commands_keep_configuration:
  "(let s' = reveal rnd now s x y
    in rows s' = rows s \<and> cols s' = cols s \<and> mines s' = mines s \<and> difficulty s' = difficulty s)
   \<and> (let s' = toggleFlag s x y
    in rows s' = rows s \<and> cols s' = cols s \<and> mines s' = mines s \<and> difficulty s' = difficulty s)
   \<and> (let s' = chord s x y
    in rows s' = rows s \<and> cols s' = cols s \<and> mines s' = mines s \<and> difficulty s' = difficulty s)
   \<and> (let s' = useHint rnd now s
    in rows s' = rows s \<and> cols s' = cols s \<and> mines s' = mines s \<and> difficulty s' = difficulty s)"
  unfolding Let_def using reveal_frame toggleFlag_frame chord_frame useHint_frame by blast

theorem commands_keep_configuration_witness:
  "rows (reveal (\<lambda>i. 0) 1000 (initialState 3 4 2 Expert) 1 1) = 3
   \<and> cols (toggleFlag (initialState 3 4 2 Expert) 1 1) = 4
   \<and> mines (chord (initialState 3 4 2 Expert) 1 1) = 2
   \<and> difficulty (useHint (\<lambda>i. 0) 1000 (initialState 3 4 2 Expert)) = Expert"
  using commands_keep_configuration [of "\<lambda>i. 0" 1000 "initialState 3 4 2 Expert" 1 1]
  by (simp add: initialState_def Let_def)

lemma tileAt_cells:
  "tileAt s y x = (if (x, y) \<in> cells (rows s) (cols s) then Some (cell (board s) (x, y)) else None)"
  by (auto simp: tileAt_def cell_simp)

lemma wf_cell_coords:
  "wf_state s \<Longrightarrow> (x, y) \<in> cells (rows s) (cols s) \<Longrightarrow>
     tile_x (board s ! nat y ! nat x) = x \<and> tile_y (board s ! nat y ! nat x) = y"
  unfolding wf_state_def cell_simp [symmetric] using coords_okD by blast

text \<open>
  Claim C8. \<open>toggleFlag(x, y)\<close> returns the snapshot unchanged when the game is won or
  lost, when the coordinate is out of bounds, or when the tile is revealed. Otherwise it
  flips \<open>isFlagged\<close> of that tile and of no other, adds 1 to \<open>flagsPlaced\<close> when it flags
  and subtracts 1 when it unflags, and sets \<open>minesLeft\<close> to
  \<open>max 0 (mines - flagsPlaced)\<close>, which is never negative.
\<close>

theorem toggleFlag_spec:
  assumes "wf_state s"
  shows "(status s = Won \<or> status s = Lost \<or> (x, y) \<notin> cells (rows s) (cols s)
            \<or> isRevealed (board s ! nat y ! nat x)
          \<longrightarrow> toggleFlag s x y = s)
       \<and> (status s \<noteq> Won \<and> status s \<noteq> Lost \<and> (x, y) \<in> cells (rows s) (cols s)
            \<and> \<not> isRevealed (board s ! nat y ! nat x)
          \<longrightarrow> (let t = board s ! nat y ! nat x;
                   fp = flagsPlaced s + (if isFlagged t then - 1 else 1);
                   s' = toggleFlag s x y
               in s' = s\<lparr>board := set_tile (board s) y x (t\<lparr>isFlagged := \<not> isFlagged t\<rparr>),
                        flagsPlaced := fp, minesLeft := max 0 (mines s - fp)\<rparr>
                  \<and> board s' ! nat y ! nat x = t\<lparr>isFlagged := \<not> isFlagged t\<rparr>
                  \<and> (\<forall>p \<in> cells (rows s) (cols s). p \<noteq> (x, y) \<longrightarrow>
                        cell (board s') p = cell (board s) p)
                  \<and> flagsPlaced s' = fp
                  \<and> minesLeft s' = max 0 (mines s - flagsPlaced s')
                  \<and> minesLeft s' \<ge> 0))"
proof (intro conjI impI)
  assume "status s = Won \<or> status s = Lost \<or> (x, y) \<notin> cells (rows s) (cols s)
            \<or> isRevealed (board s ! nat y ! nat x)"
  then show "toggleFlag s x y = s"
    by (auto simp: toggleFlag_def tileAt_cells cell_simp)
next
  assume a: "status s \<noteq> Won \<and> status s \<noteq> Lost \<and> (x, y) \<in> cells (rows s) (cols s)
            \<and> \<not> isRevealed (board s ! nat y ! nat x)"
  let ?t = "board s ! nat y ! nat x"
  from a have inb: "(x, y) \<in> cells (rows s) (cols s)" by simp
  from wf_cell_coords [OF assms inb] have xy: "tile_x ?t = x" "tile_y ?t = y" by simp_all
  from assms have r: "rect (board s) (rows s) (cols s)" by (simp add: wf_state_def)
  have eq: "toggleFlag s x y =
      s\<lparr>board := set_tile (board s) y x (?t\<lparr>isFlagged := \<not> isFlagged ?t\<rparr>),
        flagsPlaced := flagsPlaced s + (if isFlagged ?t then - 1 else 1),
        minesLeft := max 0 (mines s - (flagsPlaced s + (if isFlagged ?t then - 1 else 1)))\<rparr>"
    using a xy by (simp add: toggleFlag_def tileAt_cells cell_simp Let_def)
  have c: "\<And>p. p \<in> cells (rows s) (cols s) \<Longrightarrow>
      cell (set_tile (board s) y x (?t\<lparr>isFlagged := \<not> isFlagged ?t\<rparr>)) p
        = (if p = (x, y) then ?t\<lparr>isFlagged := \<not> isFlagged ?t\<rparr> else cell (board s) p)"
    by (rule cell_set_tile [OF r inb])
  show "let t = board s ! nat y ! nat x;
            fp = flagsPlaced s + (if isFlagged t then - 1 else 1);
            s' = toggleFlag s x y
        in s' = s\<lparr>board := set_tile (board s) y x (t\<lparr>isFlagged := \<not> isFlagged t\<rparr>),
                 flagsPlaced := fp, minesLeft := max 0 (mines s - fp)\<rparr>
           \<and> board s' ! nat y ! nat x = t\<lparr>isFlagged := \<not> isFlagged t\<rparr>
           \<and> (\<forall>p \<in> cells (rows s) (cols s). p \<noteq> (x, y) \<longrightarrow>
                 cell (board s') p = cell (board s) p)
           \<and> flagsPlaced s' = fp
           \<and> minesLeft s' = max 0 (mines s - flagsPlaced s')
           \<and> minesLeft s' \<ge> 0"
    unfolding Let_def eq using c [OF inb] c by (simp add: cell_simp [symmetric])
qed

theorem toggleFlag_spec_witness:
  "wf_state (initialState 2 2 1 Custom)
   \<and> isFlagged (board (toggleFlag (initialState 2 2 1 Custom) 0 1) ! nat 1 ! nat 0)
   \<and> flagsPlaced (toggleFlag (initialState 2 2 1 Custom) 0 1) = 1
   \<and> minesLeft (toggleFlag (initialState 2 2 1 Custom) 0 1) = 0
   \<and> toggleFlag (toggleFlag (initialState 2 2 1 Custom) 0 1) 5 5 = toggleFlag (initialState 2 2 1 Custom) 0 1"
proof -
  let ?s = "initialState 2 2 1 Custom"
  have wf: "wf_state ?s" by code_simp
  have h: "status ?s \<noteq> Won \<and> status ?s \<noteq> Lost \<and> (0, 1) \<in> cells (rows ?s) (cols ?s)
      \<and> \<not> isRevealed (board ?s ! nat 1 ! nat 0)" by code_simp
  have wf': "wf_state (toggleFlag ?s 0 1)" by code_simp
  have h': "(5, 5) \<notin> cells (rows (toggleFlag ?s 0 1)) (cols (toggleFlag ?s 0 1))" by code_simp
  have e: "mines ?s = 1" "flagsPlaced ?s = 0" "\<not> isFlagged (board ?s ! nat 1 ! nat 0)" by code_simp+
  from toggleFlag_spec [OF wf, of 0 1] h
  have "board (toggleFlag ?s 0 1) ! nat 1 ! nat 0
          = (board ?s ! nat 1 ! nat 0)\<lparr>isFlagged := \<not> isFlagged (board ?s ! nat 1 ! nat 0)\<rparr>
        \<and> flagsPlaced (toggleFlag ?s 0 1)
          = flagsPlaced ?s + (if isFlagged (board ?s ! nat 1 ! nat 0) then - 1 else 1)
        \<and> minesLeft (toggleFlag ?s 0 1) = max 0 (mines ?s - flagsPlaced (toggleFlag ?s 0 1))"
    unfolding Let_def by blast
  moreover from toggleFlag_spec [OF wf', of 5 5] h'
  have "toggleFlag (toggleFlag ?s 0 1) 5 5 = toggleFlag ?s 0 1" by blast
  ultimately show ?thesis using wf e by (simp add: Let_def)
qed

section \<open>Chording: the guard\<close>

lemma wf_neighbors_count:
  assumes "wf_state s"
  shows "length (filter P (neighbors (board s) x y))
     = card {p \<in> adjacent_cells (rows s) (cols s) x y. P (cell (board s) p)}"
  using assms count_neighbors unfolding wf_state_def by blast

text \<open>
  Claim C7. \<open>chord(x, y)\<close> returns the snapshot unchanged unless the game is being
  played, the cell is in bounds, its tile is revealed, is not a mine, has a positive
  \<open>adjacentMines\<close>, and the number of flagged in-bounds neighbours equals that count:
  with fewer or more flags nothing happens, and no error is raised.
\<close>

theorem chord_noop:
  assumes "wf_state s"
    and "\<not> (status s = Playing \<and> (x, y) \<in> cells (rows s) (cols s)
            \<and> isRevealed (board s ! nat y ! nat x) \<and> \<not> isMine (board s ! nat y ! nat x)
            \<and> adjacentMines (board s ! nat y ! nat x) > 0
            \<and> card {p \<in> adjacent_cells (rows s) (cols s) x y. isFlagged (cell (board s) p)}
                = adjacentMines (board s ! nat y ! nat x))"
  shows "chord s x y = s"
proof (cases "status s = Playing \<and> (x, y) \<in> cells (rows s) (cols s)")
  case False
  then show ?thesis by (auto simp: chord_def tileAt_cells cell_simp)
next
  case True
  let ?t = "board s ! nat y ! nat x"
  from True have inb: "(x, y) \<in> cells (rows s) (cols s)" by simp
  from wf_cell_coords [OF assms(1) inb] have xy: "tile_x ?t = x" "tile_y ?t = y" by simp_all
  from True assms(2) have "\<not> isRevealed ?t \<or> isMine ?t \<or> adjacentMines ?t = 0
      \<or> length (filter isFlagged (neighbors (board s) x y)) \<noteq> adjacentMines ?t"
    unfolding wf_neighbors_count [OF assms(1)] by auto
  with True xy show ?thesis
    by (auto simp: chord_def tileAt_cells cell_simp Let_def)
qed

theorem chord_noop_witness:
  "status (reveal (\<lambda>i. i) 5 (initialState 4 4 3 Custom) 0 0) = Playing
   \<and> isRevealed (board (reveal (\<lambda>i. i) 5 (initialState 4 4 3 Custom) 0 0) ! nat 0 ! nat 1)
   \<and> adjacentMines (board (reveal (\<lambda>i. i) 5 (initialState 4 4 3 Custom) 0 0) ! nat 0 ! nat 1) = 2
   \<and> chord (reveal (\<lambda>i. i) 5 (initialState 4 4 3 Custom) 0 0) 1 0
       = reveal (\<lambda>i. i) 5 (initialState 4 4 3 Custom) 0 0"
proof -
  let ?s = "reveal (\<lambda>i. i) 5 (initialState 4 4 3 Custom) 0 0"
  have wf: "wf_state ?s" by code_simp
  have e: "status ?s = Playing" "isRevealed (board ?s ! nat 0 ! nat 1)"
    "adjacentMines (board ?s ! nat 0 ! nat 1) = 2" by code_simp+
  have "length (filter isFlagged (neighbors (board ?s) 1 0)) = 0" by code_simp
  then have "card {p \<in> adjacent_cells (rows ?s) (cols ?s) 1 0. isFlagged (cell (board ?s) p)} = 0"
    by (simp only: wf_neighbors_count [OF wf])
  with e have "\<not> (status ?s = Playing \<and> (1, 0) \<in> cells (rows ?s) (cols ?s)
            \<and> isRevealed (board ?s ! nat 0 ! nat 1) \<and> \<not> isMine (board ?s ! nat 0 ! nat 1)
            \<and> adjacentMines (board ?s ! nat 0 ! nat 1) > 0
            \<and> card {p \<in> adjacent_cells (rows ?s) (cols ?s) 1 0. isFlagged (cell (board ?s) p)}
                = adjacentMines (board ?s ! nat 0 ! nat 1))"
    by simp
  from chord_noop [OF wf this] e show ?thesis by simp
qed

section \<open>Mine placement and adjacency counts\<close>

lemma adjacent_cells_sub: "adjacent_cells r c x y \<subseteq> cells r c"
  by (auto simp: adjacent_cells_def)

lemma mine_count_cong:
  assumes "\<And>p. p \<in> cells r c \<Longrightarrow> isMine (cell b' p) = isMine (cell b p)"
  shows "mine_count b' r c x y = mine_count b r c x y"
proof -
  have "{p \<in> adjacent_cells r c x y. isMine (cell b' p)}
      = {p \<in> adjacent_cells r c x y. isMine (cell b p)}"
    using assms adjacent_cells_sub [of r c x y] by blast
  then show ?thesis by (simp add: mine_count_def)
qed

lemma neighbors_mine_count:
  "rect b r c \<Longrightarrow> length (filter isMine (neighbors b x y)) = mine_count b r c x y"
  by (simp add: count_neighbors mine_count_def)

lemma set_row_major: "set (row_major r c) = cells r c"
  by (auto simp: row_major_def cells_def)

lemma row_major_product:
  "row_major r c = map prod.swap (List.product [0..r - 1] [0..c - 1])"
  by (simp add: row_major_def product_concat_map map_concat o_def)

lemma distinct_row_major: "distinct (row_major r c)"
  unfolding row_major_product
  by (simp add: distinct_map distinct_product)

lemma recalc_tile_eq:
  "recalc_tile b (x, y) = set_tile b y x ((cell b (x, y))\<lparr>adjacentMines :=
      (if isMine (cell b (x, y)) then 0 else length (filter isMine (neighbors b x y)))\<rparr>)"
  by (simp add: recalc_tile_def Let_def cell_simp)

lemma recalc_tile_cell:
  assumes r: "rect b r c" and p: "(x, y) \<in> cells r c"
  shows "rect (recalc_tile b (x, y)) r c"
    and "q \<in> cells r c \<Longrightarrow> cell (recalc_tile b (x, y)) q =
      (if q = (x, y)
       then (cell b q)\<lparr>adjacentMines :=
              (if isMine (cell b q) then 0 else mine_count b r c x y)\<rparr>
       else cell b q)"
proof -
  show "rect (recalc_tile b (x, y)) r c"
    using r by (simp add: recalc_tile_eq)
  assume q: "q \<in> cells r c"
  show "cell (recalc_tile b (x, y)) q =
      (if q = (x, y)
       then (cell b q)\<lparr>adjacentMines :=
              (if isMine (cell b q) then 0 else mine_count b r c x y)\<rparr>
       else cell b q)"
    by (simp add: recalc_tile_eq cell_set_tile [OF r p q] neighbors_mine_count [OF r])
qed

lemma foldl_recalc:
  assumes "rect b r c" and "set ps \<subseteq> cells r c" and "distinct ps"
  shows "rect (foldl recalc_tile b ps) r c \<and>
     (\<forall>q \<in> cells r c. cell (foldl recalc_tile b ps) q =
        (if q \<in> set ps
         then (cell b q)\<lparr>adjacentMines :=
                (if isMine (cell b q) then 0 else mine_count b r c (fst q) (snd q))\<rparr>
         else cell b q))"
  using assms
proof (induction ps arbitrary: b)
  case Nil
  then show ?case by simp
next
  case (Cons p ps)
  obtain x y where p: "p = (x, y)" by (cases p)
  let ?b1 = "recalc_tile b (x, y)"
  from Cons.prems p have pin: "(x, y) \<in> cells r c" by simp
  note r1 = recalc_tile_cell(1) [OF Cons.prems(1) pin]
  note c1 = recalc_tile_cell(2) [OF Cons.prems(1) pin]
  have mines: "\<And>q. q \<in> cells r c \<Longrightarrow> isMine (cell ?b1 q) = isMine (cell b q)"
    by (simp add: c1)
  have mc: "\<And>u v. mine_count ?b1 r c u v = mine_count b r c u v"
    by (rule mine_count_cong) (rule mines)
  from Cons.prems p have ps: "set ps \<subseteq> cells r c" "distinct ps" and nin: "(x, y) \<notin> set ps"
    by auto
  note ih = Cons.IH [OF r1 ps]
  show ?case
  proof (intro conjI ballI)
    show "rect (foldl recalc_tile b (p # ps)) r c" using ih by (simp add: p)
  next
    fix q assume q: "q \<in> cells r c"
    from ih q have "cell (foldl recalc_tile b (p # ps)) q =
        (if q \<in> set ps
         then (cell ?b1 q)\<lparr>adjacentMines :=
                (if isMine (cell ?b1 q) then 0 else mine_count ?b1 r c (fst q) (snd q))\<rparr>
         else cell ?b1 q)" by (simp add: p)
    also have "\<dots> = (if q \<in> set (p # ps)
         then (cell b q)\<lparr>adjacentMines :=
                (if isMine (cell b q) then 0 else mine_count b r c (fst q) (snd q))\<rparr>
         else cell b q)"
      using nin by (auto simp: mc mines [OF q] c1 [OF q] c1 [OF pin] p)
    finally show "cell (foldl recalc_tile b (p # ps)) q =
        (if q \<in> set (p # ps)
         then (cell b q)\<lparr>adjacentMines :=
                (if isMine (cell b q) then 0 else mine_count b r c (fst q) (snd q))\<rparr>
         else cell b q)" .
  qed
qed

lemma recalculateAdjacency_cell:
  assumes "rect b r c" and "r > 0"
  shows "rect (recalculateAdjacency b) r c"
    and "q \<in> cells r c \<Longrightarrow> cell (recalculateAdjacency b) q =
      (cell b q)\<lparr>adjacentMines :=
         (if isMine (cell b q) then 0 else mine_count b r c (fst q) (snd q))\<rparr>"
proof -
  from assms have d: "int (length b) = r" "int (length (b ! 0)) = c"
    by (auto simp: rect_def)
  note f = foldl_recalc [OF assms(1), of "row_major r c", unfolded set_row_major,
      OF subset_refl distinct_row_major]
  from f show "rect (recalculateAdjacency b) r c"
    by (simp add: recalculateAdjacency_def d)
  assume "q \<in> cells r c"
  with f show "cell (recalculateAdjacency b) q =
      (cell b q)\<lparr>adjacentMines :=
         (if isMine (cell b q) then 0 else mine_count b r c (fst q) (snd q))\<rparr>"
    by (simp add: recalculateAdjacency_def d)
qed

lemma index_cell:
  assumes "c > 0" and "0 \<le> i" and "i < r * c"
  shows "(i mod c, i div c) \<in> cells r c"
proof -
  have "i div c < r"
  proof (rule ccontr)
    assume "\<not> i div c < r"
    then have "r \<le> i div c" by simp
    then have "r * c \<le> (i div c) * c" using assms(1) by (simp add: mult_right_mono)
    also have "\<dots> \<le> i"
    proof -
      have "i = i div c * c + i mod c" by simp
      moreover have "0 \<le> i mod c" using assms(1) by simp
      ultimately show ?thesis by linarith
    qed
    finally show False using assms(3) by simp
  qed
  moreover have "0 \<le> i div c" using assms by (simp add: pos_imp_zdiv_nonneg_iff)
  ultimately show ?thesis using assms by simp
qed

lemma cell_index:
  assumes "(x, y) \<in> cells r c"
  shows "(y * c + x) div c = y" and "(y * c + x) mod c = x"
    and "0 \<le> y * c + x" and "y * c + x < r * c"
proof -
  from assms have b: "0 \<le> x" "x < c" "0 \<le> y" "y < r" by simp_all
  then show "(y * c + x) div c = y" by simp
  from b show "(y * c + x) mod c = x" by simp
  from b show "0 \<le> y * c + x" by simp
  from b have "y + 1 \<le> r" by simp
  then have "(y + 1) * c \<le> r * c" using b by (intro mult_right_mono) simp_all
  with b show "y * c + x < r * c" by (simp add: algebra_simps)
qed

lemma mark_mine_eq:
  "mark_mine c mp b i =
     (if i \<in> set mp
      then set_tile b (i div c) (i mod c) ((cell b (i mod c, i div c))\<lparr>isMine := True\<rparr>)
      else b)"
  by (simp add: mark_mine_def Let_def cell_simp)

lemma mark_mine_cell:
  assumes r: "rect b r c" and c: "c > 0" and i: "0 \<le> i" "i < r * c"
  shows "rect (mark_mine c mp b i) r c"
    and "(x, y) \<in> cells r c \<Longrightarrow> cell (mark_mine c mp b i) (x, y) =
      (if y * c + x = i \<and> i \<in> set mp then (cell b (x, y))\<lparr>isMine := True\<rparr>
       else cell b (x, y))"
proof -
  show "rect (mark_mine c mp b i) r c" using r by (simp add: mark_mine_eq)
  assume q: "(x, y) \<in> cells r c"
  note p = index_cell [OF c i]
  have iff: "y * c + x = i \<longleftrightarrow> (x, y) = (i mod c, i div c)"
    using cell_index(1,2) [OF q] c by auto
  show "cell (mark_mine c mp b i) (x, y) =
      (if y * c + x = i \<and> i \<in> set mp then (cell b (x, y))\<lparr>isMine := True\<rparr>
       else cell b (x, y))"
    unfolding iff
    by (auto simp: mark_mine_eq cell_set_tile [OF r p q] cell_set_tile [OF r p p])
qed

lemma foldl_mark:
  assumes "rect b r c" and "c > 0" and "\<forall>i \<in> set js. 0 \<le> i \<and> i < r * c"
  shows "rect (foldl (mark_mine c mp) b js) r c \<and>
     (\<forall>x y. (x, y) \<in> cells r c \<longrightarrow> cell (foldl (mark_mine c mp) b js) (x, y) =
        (if y * c + x \<in> set js \<and> y * c + x \<in> set mp
         then (cell b (x, y))\<lparr>isMine := True\<rparr> else cell b (x, y)))"
  using assms
proof (induction js arbitrary: b)
  case Nil
  then show ?case by simp
next
  case (Cons i js)
  from Cons.prems have i: "0 \<le> i" "i < r * c" by simp_all
  note r1 = mark_mine_cell(1) [OF Cons.prems(1,2) i, of mp]
  note c1 = mark_mine_cell(2) [OF Cons.prems(1,2) i, of _ _ mp]
  from Cons.prems have "\<forall>i \<in> set js. 0 \<le> i \<and> i < r * c" by simp
  note ih = Cons.IH [OF r1 Cons.prems(2) this]
  show ?case
  proof (intro conjI allI impI)
    show "rect (foldl (mark_mine c mp) b (i # js)) r c" using ih by simp
  next
    fix x y assume q: "(x, y) \<in> cells r c"
    from ih q show "cell (foldl (mark_mine c mp) b (i # js)) (x, y) =
        (if y * c + x \<in> set (i # js) \<and> y * c + x \<in> set mp
         then (cell b (x, y))\<lparr>isMine := True\<rparr> else cell b (x, y))"
      by (auto simp: c1 [OF q])
  qed
qed

lemma set_upto_range: "set [0..n - 1] = {i. 0 \<le> i \<and> i < n}"
  by auto

lemma forbidden_cells_mem:
  assumes "(x, y) \<in> cells (rows s) (cols s)" and "\<bar>x - sx\<bar> \<le> 1" and "\<bar>y - sy\<bar> \<le> 1"
  shows "y * cols s + x \<in> set (forbidden_cells s sx sy)"
proof -
  from assms(2,3) have "x - sx = - 1 \<or> x - sx = 0 \<or> x - sx = 1"
    "y - sy = - 1 \<or> y - sy = 0 \<or> y - sy = 1" by auto
  then have o: "(x - sx, y - sy) \<in> set offsets9"
    unfolding offsets9_def by auto
  let ?f = "\<lambda>(dx, dy). (sy + dy) * cols s + (sx + dx)"
  have "?f (x - sx, y - sy) = y * cols s + x" by simp
  moreover from assms(1) o have "(x - sx, y - sy) \<in> set (filter
      (\<lambda>(dx, dy). sy + dy \<ge> 0 \<and> sy + dy < rows s \<and> sx + dx \<ge> 0 \<and> sx + dx < cols s)
      offsets9)" by simp
  ultimately show ?thesis
    unfolding forbidden_cells_def set_map by (metis (no_types, lifting) image_eqI)
qed

lemma minePositions_sub:
  "set (minePositions rnd s sx sy) \<subseteq> {i. 0 \<le> i \<and> i < rows s * cols s} - set (forbidden_cells s sx sy)"
proof -
  have "set (minePositions rnd s sx sy)
      \<subseteq> set (shuffle rnd (filter (\<lambda>i. i \<notin> set (forbidden_cells s sx sy))
                [0..rows s * cols s - 1]))"
    unfolding minePositions_def Let_def by (rule set_slice0)
  then show ?thesis by auto
qed

lemma minePositions_safe:
  assumes "(x, y) \<in> cells (rows s) (cols s)" and "\<bar>x - sx\<bar> \<le> 1" and "\<bar>y - sy\<bar> \<le> 1"
  shows "y * cols s + x \<notin> set (minePositions rnd s sx sy)"
  using forbidden_cells_mem [OF assms] minePositions_sub [of rnd s sx sy] by auto

lemma consistentI:
  assumes "\<And>x y. (x, y) \<in> cells r c \<Longrightarrow> adjacentMines (cell b (x, y)) =
          (if isMine (cell b (x, y)) then 0 else mine_count b r c x y)"
  shows "consistent b r c"
  using assms unfolding consistent_def by blast

lemma consistentD:
  "consistent b r c \<Longrightarrow> (x, y) \<in> cells r c \<Longrightarrow> adjacentMines (cell b (x, y)) =
          (if isMine (cell b (x, y)) then 0 else mine_count b r c x y)"
  unfolding consistent_def by blast

lemma placeMines_board:
  fixes rnd s sx sy
  assumes "wf_state s"
  defines "b' \<equiv> board (placeMinesAfterFirstClick rnd s sx sy)"
  shows "rect b' (rows s) (cols s)"
    and "\<And>x y. (x, y) \<in> cells (rows s) (cols s) \<Longrightarrow>
      tile_x (cell b' (x, y)) = x \<and> tile_y (cell b' (x, y)) = y
      \<and> isRevealed (cell b' (x, y)) = isRevealed (cell (board s) (x, y))
      \<and> isFlagged (cell b' (x, y)) = isFlagged (cell (board s) (x, y))
      \<and> isMine (cell b' (x, y)) = (isMine (cell (board s) (x, y))
           \<or> y * cols s + x \<in> set (minePositions rnd s sx sy))"
    and "consistent b' (rows s) (cols s)"
proof -
  let ?r = "rows s" and ?c = "cols s" and ?mp = "minePositions rnd s sx sy"
  let ?b1 = "foldl (mark_mine ?c ?mp) (board s) [0..?r * ?c - 1]"
  from assms(1) have pos: "?r > 0" "?c > 0" and r: "rect (board s) ?r ?c"
    and co: "coords_ok (board s)" by (simp_all add: wf_state_def)
  have b': "b' = recalculateAdjacency ?b1"
    by (simp add: b'_def placeMinesAfterFirstClick_def Let_def)
  have "\<forall>i \<in> set [0..?r * ?c - 1]. 0 \<le> i \<and> i < ?r * ?c" by auto
  note m = foldl_mark [OF r pos(2) this, of ?mp]
  from m have r1: "rect ?b1 ?r ?c" by simp
  have c1: "cell ?b1 (x, y) = (if y * ?c + x \<in> set ?mp
       then (cell (board s) (x, y))\<lparr>isMine := True\<rparr> else cell (board s) (x, y))"
    if "(x, y) \<in> cells ?r ?c" for x y
    using m that cell_index(3,4) [OF that] by simp
  show r2: "rect b' ?r ?c" unfolding b' by (rule recalculateAdjacency_cell(1) [OF r1 pos(1)])
  have c2: "cell b' q = (cell ?b1 q)\<lparr>adjacentMines :=
         (if isMine (cell ?b1 q) then 0 else mine_count ?b1 ?r ?c (fst q) (snd q))\<rparr>"
    if "q \<in> cells ?r ?c" for q
    unfolding b' by (rule recalculateAdjacency_cell(2) [OF r1 pos(1) that])
  have mc: "mine_count b' ?r ?c u v = mine_count ?b1 ?r ?c u v" for u v
    by (rule mine_count_cong) (simp add: c2)
  show "tile_x (cell b' (x, y)) = x \<and> tile_y (cell b' (x, y)) = y
      \<and> isRevealed (cell b' (x, y)) = isRevealed (cell (board s) (x, y))
      \<and> isFlagged (cell b' (x, y)) = isFlagged (cell (board s) (x, y))
      \<and> isMine (cell b' (x, y)) = (isMine (cell (board s) (x, y))
           \<or> y * cols s + x \<in> set (minePositions rnd s sx sy))"
    if q: "(x, y) \<in> cells ?r ?c" for x y
    using coords_okD [OF co r q] by (simp add: c2 [OF q] c1 [OF q])
  show "consistent b' ?r ?c"
  proof (rule consistentI)
    fix x y assume q: "(x, y) \<in> cells ?r ?c"
    show "adjacentMines (cell b' (x, y)) =
          (if isMine (cell b' (x, y)) then 0 else mine_count b' ?r ?c x y)"
      by (simp add: mc c2 [OF q])
  qed
qed

section \<open>The flood fill: an invariant rule, and what it leaves alone\<close>

lemma flood_loop_invariant:
  assumes init: "I out queue visited"
    and skip: "\<And>out x y queue visited.
      I out ((x, y) # queue) visited \<Longrightarrow>
      isRevealed (cell out (x, y)) \<or> isFlagged (cell out (x, y)) \<Longrightarrow>
      I out queue visited"
    and spread: "\<And>out x y queue visited queue' visited'.
      I out ((x, y) # queue) visited \<Longrightarrow>
      \<not> isRevealed (cell out (x, y)) \<Longrightarrow> \<not> isFlagged (cell out (x, y)) \<Longrightarrow>
      adjacentMines (cell out (x, y)) = 0 \<Longrightarrow> \<not> isMine (cell out (x, y)) \<Longrightarrow>
      foldl (enqueue r c) (queue, visited) (around x y) = (queue', visited') \<Longrightarrow>
      I (set_tile out y x ((cell out (x, y))\<lparr>isRevealed := True\<rparr>)) queue' visited'"
    and stop: "\<And>out x y queue visited.
      I out ((x, y) # queue) visited \<Longrightarrow>
      \<not> isRevealed (cell out (x, y)) \<Longrightarrow> \<not> isFlagged (cell out (x, y)) \<Longrightarrow>
      \<not> (adjacentMines (cell out (x, y)) = 0 \<and> \<not> isMine (cell out (x, y))) \<Longrightarrow>
      I (set_tile out y x ((cell out (x, y))\<lparr>isRevealed := True\<rparr>)) queue visited"
  shows "\<exists>visited'. I (flood_loop r c out queue visited) [] visited'"
proof -
  have "r' = r \<Longrightarrow> c' = c \<Longrightarrow> I out queue visited \<Longrightarrow>
      \<exists>visited'. I (flood_loop r' c' out queue visited) [] visited'" for r' c'
  proof (induction r' c' out queue visited rule: flood_loop.induct)
    case (1 r' c' out visited)
    then show ?case by auto
  next
    case (2 r' c' out x y queue visited)
    note rc = "2.prems"(1,2) and inv = "2.prems"(3)
    let ?t = "out ! nat y ! nat x"
    let ?out' = "set_tile out y x (?t\<lparr>isRevealed := True\<rparr>)"
    have t: "cell out (x, y) = ?t" by (simp add: cell_simp)
    show ?case
    proof (cases "isRevealed ?t \<or> isFlagged ?t")
      case True
      from skip [OF inv] True have "I out queue visited" by (simp add: t)
      note ih = "2.IH"(1) [OF refl True rc this]
      have "flood_loop r' c' out ((x, y) # queue) visited = flood_loop r' c' out queue visited"
        using True by (simp add: Let_def)
      with ih show ?thesis by (simp only:)
    next
      case False
      show ?thesis
      proof (cases "adjacentMines ?t = 0 \<and> \<not> isMine ?t")
        case True
        obtain q' v' where e: "foldl (enqueue r' c') (queue, visited) (around x y) = (q', v')"
          by (cases "foldl (enqueue r' c') (queue, visited) (around x y)")
        from spread [OF inv _ _ _ _ e [unfolded rc]] False True have "I ?out' q' v'"
          by (simp add: t)
        note ih = "2.IH"(2) [OF refl False refl True e [symmetric] rc this]
        have "flood_loop r' c' out ((x, y) # queue) visited = flood_loop r' c' ?out' q' v'"
          using False True e by (auto simp: Let_def)
        with ih show ?thesis by (simp only:)
      next
        case F: False
        from stop [OF inv] False F have "I ?out' queue visited" by (simp add: t)
        note ih = "2.IH"(3) [OF refl False refl F rc this]
        have "flood_loop r' c' out ((x, y) # queue) visited = flood_loop r' c' ?out' queue visited"
          using False F by (auto simp: Let_def)
        with ih show ?thesis by (simp only:)
      qed
    qed
  qed
  from this [OF refl refl init] show ?thesis .
qed

lemma enqueue_queue_sub:
  "enqueue r c (q, v) p = (q', v') \<Longrightarrow> set q \<subseteq> cells r c \<Longrightarrow> set q' \<subseteq> cells r c"
  by (cases p) (auto simp: enqueue_def subset_iff split: if_splits)

lemma enqueue_all_queue_sub:
  "foldl (enqueue r c) (q, v) ps = (q', v') \<Longrightarrow> set q \<subseteq> cells r c \<Longrightarrow> set q' \<subseteq> cells r c"
proof (induction ps arbitrary: q v)
  case Nil
  then show ?case by simp
next
  case (Cons p ps)
  obtain q1 v1 where e: "enqueue r c (q, v) p = (q1, v1)" by (cases "enqueue r c (q, v) p")
  from Cons.prems e have "foldl (enqueue r c) (q1, v1) ps = (q', v')" by simp
  from Cons.IH [OF this enqueue_queue_sub [OF e Cons.prems(2)]] show ?case .
qed

lemma only_reveals_refl: "rect b r c \<Longrightarrow> only_reveals b b r c"
  by (simp add: only_reveals_def)

lemma only_reveals_trans:
  assumes "only_reveals b b1 r c" and "only_reveals b1 b2 r c"
  shows "only_reveals b b2 r c"
  unfolding only_reveals_def
proof (intro conjI ballI)
  show "rect b2 r c" using assms(2) by (simp add: only_reveals_def)
next
  fix p assume p: "p \<in> cells r c"
  from assms(1) p have 1: "cell b1 p = cell b p
      \<or> (\<not> isFlagged (cell b p) \<and> cell b1 p = (cell b p)\<lparr>isRevealed := True\<rparr>)"
    by (simp add: only_reveals_def)
  from assms(2) p have 2: "cell b2 p = cell b1 p
      \<or> (\<not> isFlagged (cell b1 p) \<and> cell b2 p = (cell b1 p)\<lparr>isRevealed := True\<rparr>)"
    by (simp add: only_reveals_def)
  from 1 2 show "cell b2 p = cell b p
      \<or> (\<not> isFlagged (cell b p) \<and> cell b2 p = (cell b p)\<lparr>isRevealed := True\<rparr>)"
    by auto
qed

lemma only_reveals_set_tile:
  assumes "rect b r c" and "(x, y) \<in> cells r c" and "\<not> isFlagged (cell b (x, y))"
  shows "only_reveals b (set_tile b y x ((cell b (x, y))\<lparr>isRevealed := True\<rparr>)) r c"
  unfolding only_reveals_def using assms
  by (auto simp: cell_set_tile [OF assms(1,2)])

lemma flood_loop_only_reveals:
  assumes "rect b r c" and "set queue \<subseteq> cells r c"
  shows "only_reveals b (flood_loop r c b queue visited) r c"
proof -
  let ?I = "\<lambda>out (queue :: (int \<times> int) list) (visited :: (int \<times> int) list).
      rect out r c \<and> set queue \<subseteq> cells r c \<and> only_reveals b out r c"
  have "\<exists>v'. ?I (flood_loop r c b queue visited) [] v'"
  proof (rule flood_loop_invariant [where I = ?I], goal_cases)
    case 1
    from assms show ?case by (simp add: only_reveals_refl)
  next
    case (2 out x y queue visited)
    then show ?case by simp
  next
    case (3 out x y queue visited queue' visited')
    then have c: "(x, y) \<in> cells r c" and r: "rect out r c"
      and q: "set queue \<subseteq> cells r c" and o: "only_reveals b out r c" by simp_all
    have "only_reveals b (set_tile out y x ((cell out (x, y))\<lparr>isRevealed := True\<rparr>)) r c"
      by (rule only_reveals_trans [OF o only_reveals_set_tile [OF r c 3(3)]])
    with r enqueue_all_queue_sub [OF 3(6) q] show ?case by simp
  next
    case (4 out x y queue visited)
    then have c: "(x, y) \<in> cells r c" and r: "rect out r c"
      and q: "set queue \<subseteq> cells r c" and o: "only_reveals b out r c" by simp_all
    have "only_reveals b (set_tile out y x ((cell out (x, y))\<lparr>isRevealed := True\<rparr>)) r c"
      by (rule only_reveals_trans [OF o only_reveals_set_tile [OF r c 4(3)]])
    with r q show ?case by simp
  qed
  then show ?thesis by simp
qed

lemma revealFloodFill_only_reveals:
  assumes "rect b r c" and "r > 0"
  shows "only_reveals b (revealFloodFill b x y) r c"
proof -
  from assms have d: "int (length b) = r" "int (length (b ! 0)) = c"
    by (auto simp: rect_def)
  obtain q v where e: "enqueue r c ([], []) (x, y) = (q, v)"
    by (cases "enqueue r c ([], []) (x, y)")
  from enqueue_queue_sub [OF e] have "set q \<subseteq> cells r c" by simp
  from flood_loop_only_reveals [OF assms(1) this] e show ?thesis
    by (simp add: revealFloodFill_def d)
qed

lemma only_reveals_fields:
  assumes "only_reveals b b' r c" and "p \<in> cells r c"
  shows "isMine (cell b' p) = isMine (cell b p)"
    and "isFlagged (cell b' p) = isFlagged (cell b p)"
    and "adjacentMines (cell b' p) = adjacentMines (cell b p)"
    and "tile_x (cell b' p) = tile_x (cell b p)"
    and "tile_y (cell b' p) = tile_y (cell b p)"
    and "isRevealed (cell b p) \<Longrightarrow> isRevealed (cell b' p)"
    and "isRevealed (cell b' p) \<Longrightarrow> isFlagged (cell b p) \<Longrightarrow> isRevealed (cell b p)"
  using assms unfolding only_reveals_def by auto

lemma cell_initialState:
  assumes "(x, y) \<in> cells r c"
  shows "cell (board (initialState r c m d)) (x, y) =
     \<lparr>tile_x = x, tile_y = y, isMine = False, isRevealed = False,
      isFlagged = False, adjacentMines = 0\<rparr>"
  using assms by (simp add: initialState_def cell_createMatrix)

lemma initialState_fields [simp]:
  "rows (initialState r c m d) = r" "cols (initialState r c m d) = c"
  "mines (initialState r c m d) = m" "status (initialState r c m d) = Ready"
  "firstClick (initialState r c m d)" "difficulty (initialState r c m d) = d"
  "hintsLeft (initialState r c m d) = 3" "flagsPlaced (initialState r c m d) = 0"
  "minesLeft (initialState r c m d) = m"
  by (simp_all add: initialState_def)

lemma reveal_fresh_board:
  assumes "(x, y) \<in> cells r c"
  shows "board (reveal rnd now (initialState r c m d) x y) =
     revealFloodFill (board (placeMinesAfterFirstClick rnd (initialState r c m d) x y)) x y"
  using assms cell_initialState [OF assms, of m d]
  by (simp add: reveal_def tileAt_cells Let_def)

section \<open>Adjacency counts and the safe first click\<close>

text \<open>
  Claim C6. After mine placement every tile that is not a mine stores in
  \<open>adjacentMines\<close> the number of its in-bounds 8-neighbours that are mines, and every
  mine stores 0. Proved for the board that \<open>placeMinesAfterFirstClick\<close> returns, from
  any snapshot whose board matches its dimensions, for every safe cell and every outcome
  of the shuffle.
\<close>

theorem adjacency_after_placement:
  assumes "wf_state s"
  shows "\<forall>(x, y) \<in> cells (rows s) (cols s).
     let b' = board (placeMinesAfterFirstClick rnd s safeX safeY);
         t = b' ! nat y ! nat x
     in (\<not> isMine t \<longrightarrow>
           adjacentMines t = card {p \<in> adjacent_cells (rows s) (cols s) x y. isMine (cell b' p)})
      \<and> (isMine t \<longrightarrow> adjacentMines t = 0)"
proof (intro ballI, clarify)
  fix x y assume q: "(x, y) \<in> cells (rows s) (cols s)"
  let ?b' = "board (placeMinesAfterFirstClick rnd s safeX safeY)"
  from consistentD [OF placeMines_board(3) [OF assms, where rnd = rnd and sx = safeX and sy = safeY] q]
  show "let b' = ?b'; t = b' ! nat y ! nat x
     in (\<not> isMine t \<longrightarrow>
           adjacentMines t = card {p \<in> adjacent_cells (rows s) (cols s) x y. isMine (cell b' p)})
      \<and> (isMine t \<longrightarrow> adjacentMines t = 0)"
    by (simp add: Let_def cell_simp mine_count_def)
qed

theorem adjacency_after_placement_witness:
  "wf_state (initialState 3 3 2 Custom)
   \<and> \<not> isMine (board (placeMinesAfterFirstClick (\<lambda>i. i) (initialState 3 3 2 Custom) 0 0) ! nat 0 ! nat 1)
   \<and> adjacentMines (board (placeMinesAfterFirstClick (\<lambda>i. i) (initialState 3 3 2 Custom) 0 0) ! nat 0 ! nat 1) = 2
   \<and> card {p \<in> adjacent_cells 3 3 1 0.
          isMine (cell (board (placeMinesAfterFirstClick (\<lambda>i. i) (initialState 3 3 2 Custom) 0 0)) p)} = 2
   \<and> isMine (board (placeMinesAfterFirstClick (\<lambda>i. i) (initialState 3 3 2 Custom) 0 0) ! nat 0 ! nat 2)
   \<and> adjacentMines (board (placeMinesAfterFirstClick (\<lambda>i. i) (initialState 3 3 2 Custom) 0 0) ! nat 0 ! nat 2) = 0"
proof -
  let ?s = "initialState 3 3 2 Custom"
  let ?b = "board (placeMinesAfterFirstClick (\<lambda>i. i) ?s 0 0)"
  have wf: "wf_state ?s" by code_simp
  have e: "\<not> isMine (?b ! nat 0 ! nat 1)" "adjacentMines (?b ! nat 0 ! nat 1) = 2"
    "isMine (?b ! nat 0 ! nat 2)" by code_simp+
  note t = adjacency_after_placement [OF wf, of "\<lambda>i. i" 0 0]
  have c: "(1, 0) \<in> cells (rows ?s) (cols ?s)" "(2, 0) \<in> cells (rows ?s) (cols ?s)"
    by simp_all
  from bspec [OF t c(1)] bspec [OF t c(2)] e wf show ?thesis
    by (simp add: Let_def)
qed

text \<open>
  Claim C1. On a fresh game, for every in-bounds cell \<open>(x, y)\<close> and every outcome of the
  shuffle, after \<open>reveal(x, y)\<close> neither the tile at \<open>(x, y)\<close> nor any of its in-bounds
  8-neighbours is a mine. An in-bounds cell exists only when \<open>rows > 0\<close> and \<open>cols > 0\<close>;
  the statement holds for every mine count, so in particular for
  \<open>0 \<le> mines \<le> rows * cols - 9\<close>.
\<close>

theorem first_click_safe:
  assumes "(x, y) \<in> cells r c"
  shows "\<forall>(nx, ny) \<in> cells r c. \<bar>nx - x\<bar> \<le> 1 \<and> \<bar>ny - y\<bar> \<le> 1 \<longrightarrow>
     \<not> isMine (board (reveal rnd now (initialState r c m d) x y) ! nat ny ! nat nx)"
proof (intro ballI, clarify)
  fix nx ny
  assume n: "(nx, ny) \<in> cells r c" and near: "\<bar>nx - x\<bar> \<le> 1" "\<bar>ny - y\<bar> \<le> 1"
    and mine: "isMine (board (reveal rnd now (initialState r c m d) x y) ! nat ny ! nat nx)"
  let ?s0 = "initialState r c m d"
  let ?b1 = "board (placeMinesAfterFirstClick rnd ?s0 x y)"
  from assms have pos: "r > 0" "c > 0" by auto
  then have wf: "wf_state ?s0" by (rule wf_initialState)
  note pm = placeMines_board [OF wf, where rnd = rnd and sx = x and sy = y]
  from pm(1) have "rect ?b1 r c" by simp
  from revealFloodFill_only_reveals [OF this pos(1)]
  have "only_reveals ?b1 (revealFloodFill ?b1 x y) r c" .
  from only_reveals_fields(1) [OF this n] mine
  have "isMine (cell ?b1 (nx, ny))"
    by (simp add: reveal_fresh_board [OF assms] cell_simp)
  with pm(2) [of nx ny] n have "ny * c + nx \<in> set (minePositions rnd ?s0 x y)"
    by (simp add: cell_initialState [OF n])
  moreover from minePositions_safe [where x = nx and y = ny and s = ?s0 and sx = x and sy = y and rnd = rnd] n near
  have "ny * c + nx \<notin> set (minePositions rnd ?s0 x y)" by simp
  ultimately show False by simp
qed

theorem first_click_safe_witness:
  "(0, 0) \<in> cells 4 4
   \<and> \<not> isMine (board (reveal (\<lambda>i. i) 5 (initialState 4 4 3 Custom) 0 0) ! nat 0 ! nat 0)
   \<and> \<not> isMine (board (reveal (\<lambda>i. i) 5 (initialState 4 4 3 Custom) 0 0) ! nat 1 ! nat 1)
   \<and> isMine (board (reveal (\<lambda>i. i) 5 (initialState 4 4 3 Custom) 0 0) ! nat 0 ! nat 2)"
proof -
  have c: "(0, 0) \<in> cells 4 4" "(1, 1) \<in> cells 4 4" by simp_all
  note t = first_click_safe [OF c(1), of "\<lambda>i. i" 5 3 Custom]
  have "isMine (board (reveal (\<lambda>i. i) 5 (initialState 4 4 3 Custom) 0 0) ! nat 0 ! nat 2)"
    by code_simp
  with bspec [OF t c(1)] bspec [OF t c(2)] show ?thesis by simp
qed

section \<open>The invariant of the game\<close>

lemma map_nth_upto: "map (\<lambda>i. xs ! nat i) [0..int (length xs) - 1] = xs"
  by (rule nth_equalityI) simp_all

lemma concat_board:
  assumes "rect b r c"
  shows "concat b = map (cell b) (row_major r c)"
proof -
  from assms have l: "int (length b) = r" by (simp add: rect_def)
  have row: "map (\<lambda>x. cell b (x, y)) [0..c - 1] = b ! nat y" if "y \<in> set [0..r - 1]" for y
  proof -
    from that l have "nat y < length b" by auto
    with assms have "int (length (b ! nat y)) = c" by (simp add: rect_def)
    then show ?thesis using map_nth_upto [of "b ! nat y"] by (simp add: cell_simp)
  qed
  have "map (cell b) (row_major r c)
      = concat (map (\<lambda>y. map (\<lambda>x. cell b (x, y)) [0..c - 1]) [0..r - 1])"
    by (simp add: row_major_def map_concat o_def)
  also have "map (\<lambda>y. map (\<lambda>x. cell b (x, y)) [0..c - 1]) [0..r - 1]
      = map (\<lambda>y. b ! nat y) [0..r - 1]"
    by (rule map_cong [OF refl]) (rule row)
  also have "map (\<lambda>y. b ! nat y) [0..r - 1] = b"
    using map_nth_upto [of b] l by simp
  finally show ?thesis by simp
qed

lemma countHiddenNonMines_card:
  assumes "rect b r c"
  shows "countHiddenNonMines b = card (hidden_safe b r c)"
proof -
  let ?P = "\<lambda>p. \<not> isMine (cell b p) \<and> \<not> isRevealed (cell b p)"
  have "countHiddenNonMines b = length (filter ?P (row_major r c))"
    by (simp add: countHiddenNonMines_def concat_board [OF assms] filter_map o_def)
  also have "\<dots> = card (set (filter ?P (row_major r c)))"
    by (rule distinct_card [symmetric]) (simp add: distinct_row_major)
  also have "set (filter ?P (row_major r c)) = hidden_safe b r c"
    by (auto simp: set_row_major hidden_safe_def)
  finally show ?thesis .
qed

lemma finite_hidden_safe [simp]: "finite (hidden_safe b r c)"
  by (simp add: hidden_safe_def)

lemma countHiddenNonMines_zero:
  "rect b r c \<Longrightarrow> countHiddenNonMines b = 0 \<longleftrightarrow> hidden_safe b r c = {}"
  by (simp add: countHiddenNonMines_card)

lemma hidden_safe_cong:
  assumes "\<And>p. p \<in> cells r c \<Longrightarrow> isMine (cell b' p) = isMine (cell b p)
      \<and> (\<not> isMine (cell b p) \<longrightarrow> isRevealed (cell b' p) = isRevealed (cell b p))"
  shows "hidden_safe b' r c = hidden_safe b r c"
  using assms unfolding hidden_safe_def by blast

lemma consistent_cong:
  assumes "consistent b r c"
    and "\<And>p. p \<in> cells r c \<Longrightarrow> isMine (cell b' p) = isMine (cell b p)
      \<and> adjacentMines (cell b' p) = adjacentMines (cell b p)"
  shows "consistent b' r c"
proof (rule consistentI)
  fix x y assume q: "(x, y) \<in> cells r c"
  have "mine_count b' r c x y = mine_count b r c x y"
    by (rule mine_count_cong) (simp add: assms(2))
  with consistentD [OF assms(1) q] assms(2) [OF q]
  show "adjacentMines (cell b' (x, y)) =
      (if isMine (cell b' (x, y)) then 0 else mine_count b' r c x y)" by simp
qed

lemma game_inv_wf: "game_inv s \<Longrightarrow> wf_state s"
  by (simp add: game_inv_def)

lemma game_inv_rect: "game_inv s \<Longrightarrow> rect (board s) (rows s) (cols s)"
  by (simp add: game_inv_def wf_state_def)

lemma game_inv_init:
  assumes "r > 0" and "c > 0"
  shows "game_inv (initialState r c m d)"
proof -
  let ?s = "initialState r c m d"
  have cell: "cell (board ?s) p = \<lparr>tile_x = fst p, tile_y = snd p, isMine = False,
      isRevealed = False, isFlagged = False, adjacentMines = 0\<rparr>" if "p \<in> cells r c" for p
    using cell_initialState [of "fst p" "snd p" r c m d] that by simp
  have "consistent (board ?s) r c"
  proof (rule consistentI)
    fix x y assume q: "(x, y) \<in> cells r c"
    have "{p \<in> adjacent_cells r c x y. isMine (cell (board ?s) p)} = {}"
      using adjacent_cells_sub [of r c x y] cell by auto
    then have "mine_count (board ?s) r c x y = 0"
      unfolding mine_count_def by (simp only: card.empty)
    then show "adjacentMines (cell (board ?s) (x, y)) =
        (if isMine (cell (board ?s) (x, y)) then 0 else mine_count (board ?s) r c x y)"
      by (simp add: cell [OF q])
  qed
  moreover have "(0, 0) \<in> hidden_safe (board ?s) r c"
    using assms cell [of "(0, 0)"] by (simp add: hidden_safe_def)
  then have "hidden_safe (board ?s) r c \<noteq> {}" by blast
  ultimately show ?thesis
    using wf_initialState [OF assms, of m d] cell by (simp add: game_inv_def)
qed

lemma game_invI:
  assumes "rows s > 0" and "cols s > 0" and "rect (board s) (rows s) (cols s)"
    and "coords_ok (board s)" and "consistent (board s) (rows s) (cols s)"
    and "status s = Ready \<longleftrightarrow> firstClick s"
    and "\<And>p. status s = Ready \<Longrightarrow> p \<in> cells (rows s) (cols s) \<Longrightarrow>
           \<not> isMine (cell (board s) p) \<and> \<not> isRevealed (cell (board s) p)"
    and "\<And>p. p \<in> cells (rows s) (cols s) \<Longrightarrow> isRevealed (cell (board s) p) \<Longrightarrow>
           isFlagged (cell (board s) p) \<Longrightarrow> isMine (cell (board s) p) \<and> status s = Lost"
    and "status s = Won \<longleftrightarrow> hidden_safe (board s) (rows s) (cols s) = {}"
  shows "game_inv s"
  using assms unfolding game_inv_def wf_state_def by blast

lemma game_inv_pos: "game_inv s \<Longrightarrow> rows s > 0 \<and> cols s > 0"
  by (simp add: game_inv_def wf_state_def)

lemma game_inv_coords: "game_inv s \<Longrightarrow> coords_ok (board s)"
  by (simp add: game_inv_def wf_state_def)

lemma game_inv_consistent: "game_inv s \<Longrightarrow> consistent (board s) (rows s) (cols s)"
  by (simp add: game_inv_def)

lemma game_inv_ready: "game_inv s \<Longrightarrow> status s = Ready \<longleftrightarrow> firstClick s"
  by (simp add: game_inv_def)

lemma game_inv_fresh:
  "game_inv s \<Longrightarrow> status s = Ready \<Longrightarrow> p \<in> cells (rows s) (cols s) \<Longrightarrow>
     \<not> isMine (cell (board s) p) \<and> \<not> isRevealed (cell (board s) p)"
  unfolding game_inv_def by blast

lemma game_inv_flag:
  "game_inv s \<Longrightarrow> p \<in> cells (rows s) (cols s) \<Longrightarrow> isRevealed (cell (board s) p) \<Longrightarrow>
     isFlagged (cell (board s) p) \<Longrightarrow> isMine (cell (board s) p) \<and> status s = Lost"
  unfolding game_inv_def by blast

lemma game_inv_won:
  "game_inv s \<Longrightarrow> status s = Won \<longleftrightarrow> hidden_safe (board s) (rows s) (cols s) = {}"
  by (simp add: game_inv_def)

lemma coords_ok_cong:
  assumes "coords_ok b" and "rect b r c" and "rect b' r c"
    and "\<And>p. p \<in> cells r c \<Longrightarrow> tile_x (cell b' p) = tile_x (cell b p)
      \<and> tile_y (cell b' p) = tile_y (cell b p)"
  shows "coords_ok b'"
proof (rule coords_okI [OF assms(3)])
  fix x y assume q: "(x, y) \<in> cells r c"
  from coords_okD [OF assms(1,2) q] assms(4) [OF q]
  show "tile_x (cell b' (x, y)) = x \<and> tile_y (cell b' (x, y)) = y" by simp
qed

text \<open>A snapshot whose board only reveals tiles of a sound board without a revealed flag.\<close>

lemma game_inv_reveals:
  assumes r: "rect b r c" and pos: "r > 0" "c > 0"
    and co: "coords_ok b" and cs: "consistent b r c"
    and nf: "\<And>p. p \<in> cells r c \<Longrightarrow> \<not> (isRevealed (cell b p) \<and> isFlagged (cell b p))"
    and o: "only_reveals b b' r c"
    and s': "rows s' = r" "cols s' = c" "board s' = b'"
    and fc: "\<not> firstClick s'"
    and st: "status s' = (if hidden_safe b' r c = {} then Won else Playing)"
  shows "game_inv s'"
proof (rule game_invI; (unfold s')?)
  note f = only_reveals_fields [OF o]
  show "r > 0" "c > 0" by fact+
  show r': "rect b' r c" using o by (simp add: only_reveals_def)
  show "coords_ok b'"
    by (rule coords_ok_cong [OF co r r']) (simp add: f)
  show "consistent b' r c"
    by (rule consistent_cong [OF cs]) (simp add: f)
  show "status s' = Ready \<longleftrightarrow> firstClick s'" using fc st by simp
  show "\<not> isMine (cell b' p) \<and> \<not> isRevealed (cell b' p)"
    if "status s' = Ready" for p using that st by (simp split: if_splits)
  show "isMine (cell b' p) \<and> status s' = Lost"
    if "p \<in> cells r c" "isRevealed (cell b' p)" "isFlagged (cell b' p)" for p
    using f(7) [OF that(1,2)] f(2) [OF that(1)] that(3) nf [OF that(1)] by simp
  show "status s' = Won \<longleftrightarrow> hidden_safe b' r c = {}" using st by simp
qed

lemma rect_revealAllMines [simp]: "rect (revealAllMines b) r c = rect b r c"
  by (simp add: rect_def revealAllMines_def)

lemma cell_revealAllMines:
  assumes "rect b r c" and "p \<in> cells r c"
  shows "cell (revealAllMines b) p =
     (if isMine (cell b p) then (cell b p)\<lparr>isRevealed := True\<rparr> else cell b p)"
proof -
  obtain x y where p: "p = (x, y)" by (cases p)
  from rectD [OF assms(1) assms(2) [unfolded p]] show ?thesis
    by (simp add: p cell_simp revealAllMines_def)
qed

text \<open>A lost snapshot: all mines revealed on a board that only revealed unflagged tiles
  and still hides a tile that is not a mine.\<close>

lemma game_inv_lost:
  assumes r: "rect b r c" and pos: "r > 0" "c > 0"
    and co: "coords_ok b" and cs: "consistent b r c"
    and nf: "\<And>p. p \<in> cells r c \<Longrightarrow> \<not> (isRevealed (cell b p) \<and> isFlagged (cell b p))"
    and o: "only_reveals b b1 r c"
    and hid: "hidden_safe b1 r c \<noteq> {}"
    and s': "rows s' = r" "cols s' = c" "board s' = revealAllMines b1"
    and fc: "\<not> firstClick s'" and st: "status s' = Lost"
  shows "game_inv s'"
proof (rule game_invI; (unfold s')?)
  let ?b' = "revealAllMines b1"
  note f = only_reveals_fields [OF o]
  have r1: "rect b1 r c" using o by (simp add: only_reveals_def)
  note c' = cell_revealAllMines [OF r1]
  show "r > 0" "c > 0" by fact+
  show r': "rect ?b' r c" using r1 by simp
  show "coords_ok ?b'"
    by (rule coords_ok_cong [OF co r r']) (simp add: f c')
  show "consistent ?b' r c"
    by (rule consistent_cong [OF cs]) (simp add: f c')
  show "status s' = Ready \<longleftrightarrow> firstClick s'" using fc st by simp
  show "\<not> isMine (cell ?b' p) \<and> \<not> isRevealed (cell ?b' p)"
    if "status s' = Ready" for p using that st by simp
  show "isMine (cell ?b' p) \<and> status s' = Lost"
    if "p \<in> cells r c" "isRevealed (cell ?b' p)" "isFlagged (cell ?b' p)" for p
  proof (cases "isMine (cell b1 p)")
    case True
    then show ?thesis using st by (simp add: c' [OF that(1)])
  next
    case False
    with that have "isRevealed (cell b1 p)" "isFlagged (cell b1 p)"
      by (simp_all add: c' [OF that(1)])
    with f(7) [OF that(1)] f(2) [OF that(1)] nf [OF that(1)] show ?thesis by simp
  qed
  have "hidden_safe ?b' r c = hidden_safe b1 r c"
    by (rule hidden_safe_cong) (simp add: c')
  with hid st show "status s' = Won \<longleftrightarrow> hidden_safe ?b' r c = {}" by simp
qed

lemma game_inv_cell_coords:
  "game_inv s \<Longrightarrow> (x, y) \<in> cells (rows s) (cols s) \<Longrightarrow>
     tile_x (cell (board s) (x, y)) = x \<and> tile_y (cell (board s) (x, y)) = y"
  using coords_okD game_inv_coords game_inv_rect by blast

lemma game_inv_toggleFlag:
  assumes inv: "game_inv s"
  shows "game_inv (toggleFlag s x y)"
proof (cases "status s = Lost \<or> status s = Won \<or> (x, y) \<notin> cells (rows s) (cols s)
    \<or> isRevealed (cell (board s) (x, y))")
  case True
  then have "toggleFlag s x y = s" by (auto simp: toggleFlag_def tileAt_cells)
  with inv show ?thesis by simp
next
  case False
  let ?r = "rows s" and ?c = "cols s" and ?b = "board s"
  let ?t = "cell ?b (x, y)"
  let ?b' = "set_tile ?b y x (?t\<lparr>isFlagged := \<not> isFlagged ?t\<rparr>)"
  from False have q: "(x, y) \<in> cells ?r ?c" and hid: "\<not> isRevealed ?t"
    and st: "status s \<noteq> Lost" "status s \<noteq> Won" by simp_all
  note xy = game_inv_cell_coords [OF inv q]
  note r = game_inv_rect [OF inv]
  obtain fp ml where eq: "toggleFlag s x y = s\<lparr>board := ?b', flagsPlaced := fp, minesLeft := ml\<rparr>"
    using False xy by (simp add: toggleFlag_def tileAt_cells Let_def)
  have c': "cell ?b' p = (if p = (x, y) then ?t\<lparr>isFlagged := \<not> isFlagged ?t\<rparr> else cell ?b p)"
    if "p \<in> cells ?r ?c" for p by (rule cell_set_tile [OF r q that])
  show ?thesis unfolding eq
  proof (rule game_invI; simp)
    show "0 < ?r" "0 < ?c" using game_inv_pos [OF inv] by simp_all
    show "rect ?b ?r ?c" by (rule r)
    have r': "rect ?b' ?r ?c" using r by simp
    show "coords_ok ?b'"
      by (rule coords_ok_cong [OF game_inv_coords [OF inv] r r']) (simp add: c')
    show "consistent ?b' ?r ?c"
      by (rule consistent_cong [OF game_inv_consistent [OF inv]]) (simp add: c')
    show "(status s = Ready) = firstClick s" by (rule game_inv_ready [OF inv])
    show "\<not> isMine (cell ?b' p) \<and> \<not> isRevealed (cell ?b' p)"
      if "status s = Ready" "p \<in> cells ?r ?c" for p
      using game_inv_fresh [OF inv that] game_inv_fresh [OF inv that(1) q]
      by (simp add: c' [OF that(2)])
    show "isMine (cell ?b' p) \<and> status s = Lost"
      if "p \<in> cells ?r ?c" "isRevealed (cell ?b' p)" "isFlagged (cell ?b' p)" for p
      using that game_inv_flag [OF inv that(1)] hid by (simp add: c' [OF that(1)] split: if_splits)
    have "hidden_safe ?b' ?r ?c = hidden_safe ?b ?r ?c"
      by (rule hidden_safe_cong) (simp add: c')
    with game_inv_won [OF inv] show "(status s = Won) = (hidden_safe ?b' ?r ?c = {})" by simp
  qed
qed

lemma game_inv_hintsLeft [simp]: "game_inv (s\<lparr>hintsLeft := h\<rparr>) = game_inv s"
  by (simp add: game_inv_def wf_state_def)

lemma game_inv_elapsedMs [simp]: "game_inv (s\<lparr>elapsedMs := h\<rparr>) = game_inv s"
  by (simp add: game_inv_def wf_state_def)

lemma game_inv_tick: "game_inv s \<Longrightarrow> game_inv (tick now s)"
  by (simp add: tick_def split: option.split)

lemma game_inv_newGame:
  "game_inv s \<Longrightarrow> r > 0 \<Longrightarrow> c > 0 \<Longrightarrow> game_inv (snapshot_after s (newGame s r c m d))"
  by (simp add: newGame_def snapshot_after_def game_inv_init)

lemma game_inv_restart: "game_inv s \<Longrightarrow> game_inv (snapshot_after s (restart s))"
  using game_inv_pos [of s] by (simp add: restart_def game_inv_newGame)

lemma game_inv_reveal:
  assumes inv: "game_inv s"
  shows "game_inv (reveal rnd now s x y)"
proof (cases "status s = Lost \<or> status s = Won \<or> (x, y) \<notin> cells (rows s) (cols s)
    \<or> isRevealed (cell (board s) (x, y)) \<or> isFlagged (cell (board s) (x, y))")
  case True
  then have "reveal rnd now s x y = s" by (auto simp: reveal_def tileAt_cells)
  with inv show ?thesis by simp
next
  case False
  let ?r = "rows s" and ?c = "cols s" and ?b = "board s"
  let ?t = "cell ?b (x, y)"
  from False have q: "(x, y) \<in> cells ?r ?c" and hid: "\<not> isRevealed ?t" "\<not> isFlagged ?t"
    and st: "status s \<noteq> Lost" "status s \<noteq> Won" by simp_all
  note xy = game_inv_cell_coords [OF inv q]
  note r = game_inv_rect [OF inv] and pos = game_inv_pos [OF inv]
  have nf: "\<not> (isRevealed (cell ?b p) \<and> isFlagged (cell ?b p))" if "p \<in> cells ?r ?c" for p
    using game_inv_flag [OF inv that] st by blast
  show ?thesis
  proof (cases "firstClick s")
    case True
    then have ready: "status s = Ready" using game_inv_ready [OF inv] by simp
    let ?s1 = "placeMinesAfterFirstClick rnd s x y"
    let ?b1 = "board ?s1"
    let ?b2 = "revealFloodFill ?b1 x y"
    let ?s2 = "?s1\<lparr>status := Playing, firstClick := False, startedAt := Some now, board := ?b2\<rparr>"
    from game_inv_fresh [OF inv ready q] have nm: "\<not> isMine ?t" by simp
    have eq: "reveal rnd now s x y =
        (if countHiddenNonMines ?b2 = 0 then ?s2\<lparr>status := Won\<rparr> else ?s2)"
      using False True xy nm by (simp add: reveal_def tileAt_cells Let_def)
    note pm = placeMines_board [OF game_inv_wf [OF inv], where rnd = rnd and sx = x and sy = y]
    note o = revealFloodFill_only_reveals [OF pm(1), of x y]
    have co1: "coords_ok ?b1" by (rule coords_okI [OF pm(1)]) (simp add: pm(2))
    have nf1: "\<not> (isRevealed (cell ?b1 p) \<and> isFlagged (cell ?b1 p))" if "p \<in> cells ?r ?c" for p
      using pm(2) [of "fst p" "snd p"] that game_inv_fresh [OF inv ready that] by simp
    have z: "countHiddenNonMines ?b2 = 0 \<longleftrightarrow> hidden_safe ?b2 ?r ?c = {}"
      by (rule countHiddenNonMines_zero) (use o pos in \<open>simp add: only_reveals_def\<close>)
    show ?thesis unfolding eq
      by (rule game_inv_reveals [where b = ?b1 and b' = ?b2 and r = ?r and c = ?c])
        (use pm pos co1 nf1 o z in \<open>simp_all\<close>)
  next
    case notfirst: False
    show ?thesis
    proof (cases "isMine ?t")
      case True
      have eq: "reveal rnd now s x y = s\<lparr>board := revealAllMines ?b, status := Lost\<rparr>"
        using False notfirst xy True by (simp add: reveal_def tileAt_cells Let_def)
      have "hidden_safe ?b ?r ?c \<noteq> {}" using game_inv_won [OF inv] st by simp
      then show ?thesis unfolding eq
        by (intro game_inv_lost [where b = ?b and ?b1.0 = ?b and r = ?r and c = ?c])
          (use r pos game_inv_coords [OF inv] game_inv_consistent [OF inv] nf notfirst
            in \<open>simp_all add: only_reveals_refl\<close>)
    next
      case nm: False
      let ?b2 = "revealFloodFill ?b x y"
      let ?s2 = "s\<lparr>board := ?b2\<rparr>"
      from notfirst game_inv_ready [OF inv] st have pl: "status s = Playing"
        by (cases "status s") simp_all
      have eq: "reveal rnd now s x y =
          (if countHiddenNonMines ?b2 = 0 then ?s2\<lparr>status := Won\<rparr> else ?s2)"
        using False notfirst xy nm by (simp add: reveal_def tileAt_cells Let_def)
      note o = revealFloodFill_only_reveals [OF r, of x y]
      have z: "countHiddenNonMines ?b2 = 0 \<longleftrightarrow> hidden_safe ?b2 ?r ?c = {}"
        by (rule countHiddenNonMines_zero) (use o pos in \<open>simp add: only_reveals_def\<close>)
      show ?thesis unfolding eq
        by (rule game_inv_reveals [where b = ?b and b' = ?b2 and r = ?r and c = ?c])
          (use r pos game_inv_coords [OF inv] game_inv_consistent [OF inv] nf notfirst o z pl
            in \<open>simp_all\<close>)
    qed
  qed
qed

lemma game_inv_useHint: "game_inv s \<Longrightarrow> game_inv (useHint rnd now s)"
  by (simp add: useHint_def Let_def game_inv_reveal split: option.split prod.split)

lemma filter_count_exchange:
  assumes "length (filter P xs) = length (filter Q xs)" and "\<exists>x \<in> set xs. Q x \<and> \<not> P x"
  shows "\<exists>x \<in> set xs. P x \<and> \<not> Q x"
proof -
  have e: "length (filter P xs) + length (filter (\<lambda>x. Q x \<and> \<not> P x) xs)
      = length (filter Q xs) + length (filter (\<lambda>x. P x \<and> \<not> Q x) xs)"
    by (induction xs) auto
  from assms(2) have "filter (\<lambda>x. Q x \<and> \<not> P x) xs \<noteq> []"
    by (simp add: filter_empty_conv)
  then have "length (filter (\<lambda>x. Q x \<and> \<not> P x) xs) > 0" by simp
  with e assms(1) have "length (filter (\<lambda>x. P x \<and> \<not> Q x) xs) > 0" by simp
  then have "filter (\<lambda>x. P x \<and> \<not> Q x) xs \<noteq> []" by simp
  then show ?thesis by (simp add: filter_empty_conv)
qed

lemma only_reveals_rect: "only_reveals b b' r c \<Longrightarrow> rect b' r c"
  by (simp add: only_reveals_def)

lemma only_reveals_set_cell:
  assumes o: "only_reveals b b0 r c" and p: "(x, y) \<in> cells r c"
    and nf: "\<not> isFlagged (cell b (x, y))"
  shows "only_reveals b (set_tile b0 y x ((cell b (x, y))\<lparr>isRevealed := True\<rparr>)) r c"
  unfolding only_reveals_def
proof (intro conjI ballI)
  note r0 = only_reveals_rect [OF o]
  show "rect (set_tile b0 y x ((cell b (x, y))\<lparr>isRevealed := True\<rparr>)) r c"
    using r0 by simp
  fix q assume q: "q \<in> cells r c"
  from o q have "cell b0 q = cell b q
      \<or> (\<not> isFlagged (cell b q) \<and> cell b0 q = (cell b q)\<lparr>isRevealed := True\<rparr>)"
    by (simp add: only_reveals_def)
  with nf show "cell (set_tile b0 y x ((cell b (x, y))\<lparr>isRevealed := True\<rparr>)) q = cell b q
      \<or> (\<not> isFlagged (cell b q)
          \<and> cell (set_tile b0 y x ((cell b (x, y))\<lparr>isRevealed := True\<rparr>)) q
              = (cell b q)\<lparr>isRevealed := True\<rparr>)"
    by (auto simp: cell_set_tile [OF r0 p q])
qed

lemma chord_step_reveals:
  assumes r: "rect b r c" and pos: "r > 0" and co: "coords_ok b"
    and n: "n = cell b p" "p \<in> cells r c"
    and o: "only_reveals b b0 r c"
    and res: "chord_step (b0, h0) n = (b', h')"
  shows "only_reveals b b' r c
     \<and> (h' \<longleftrightarrow> h0 \<or> (\<not> isFlagged n \<and> \<not> isRevealed n \<and> isMine n))"
proof -
  obtain x y where p: "p = (x, y)" by (cases p)
  from coords_okD [OF co r n(2) [unfolded p]] n(1) p
  have xy: "tile_x n = x" "tile_y n = y" by simp_all
  show ?thesis
  proof (cases "\<not> isFlagged n \<and> \<not> isRevealed n")
    case False
    with res o show ?thesis by (auto simp: chord_step_def)
  next
    case True
    show ?thesis
    proof (cases "isMine n")
      case m: True
      from res True m xy have "b' = set_tile b0 y x (n\<lparr>isRevealed := True\<rparr>)" "h'"
        by (auto simp: chord_step_def)
      with only_reveals_set_cell [OF o n(2) [unfolded p]] True m n(1) p show ?thesis by simp
    next
      case nm: False
      from res True nm xy have e: "b' = revealFloodFill b0 x y" "h' = h0"
        by (auto simp: chord_step_def)
      from revealFloodFill_only_reveals [OF only_reveals_rect [OF o] pos, of x y]
      have "only_reveals b b' r c" unfolding e by (rule only_reveals_trans [OF o])
      with e nm show ?thesis by simp
    qed
  qed
qed

lemma chord_loop_reveals:
  assumes r: "rect b r c" and pos: "r > 0" and co: "coords_ok b"
    and ns: "\<forall>n \<in> set ns. \<exists>p \<in> cells r c. n = cell b p"
    and o: "only_reveals b b0 r c"
    and res: "foldl chord_step (b0, h0) ns = (b', h')"
  shows "only_reveals b b' r c
     \<and> (h' \<longleftrightarrow> h0 \<or> (\<exists>n \<in> set ns. \<not> isFlagged n \<and> \<not> isRevealed n \<and> isMine n))"
  using ns o res
proof (induction ns arbitrary: b0 h0)
  case Nil
  then show ?case by simp
next
  case (Cons n ns)
  obtain b1 h1 where s: "chord_step (b0, h0) n = (b1, h1)" by (cases "chord_step (b0, h0) n")
  from Cons.prems(1) obtain p where p: "p \<in> cells r c" "n = cell b p" by auto
  note st = chord_step_reveals [OF r pos co p(2,1) Cons.prems(2) s]
  from Cons.prems(3) s have "foldl chord_step (b1, h1) ns = (b', h')" by simp
  from Cons.IH [OF _ _ this] Cons.prems(1) st show ?case by auto
qed

lemma set_neighbors:
  "rect b r c \<Longrightarrow> set (neighbors b x y) = cell b ` adjacent_cells r c x y"
  by (simp add: neighbors_cells set_around_cells [symmetric] del: set_filter)

lemma chord_skip:
  assumes "status s \<noteq> Playing \<or> (x, y) \<notin> cells (rows s) (cols s)
      \<or> \<not> isRevealed (cell (board s) (x, y)) \<or> isMine (cell (board s) (x, y))
      \<or> adjacentMines (cell (board s) (x, y)) = 0
      \<or> length (filter isFlagged (neighbors (board s) (tile_x (cell (board s) (x, y)))
            (tile_y (cell (board s) (x, y))))) \<noteq> adjacentMines (cell (board s) (x, y))"
  shows "chord s x y = s"
proof (cases "(x, y) \<in> cells (rows s) (cols s)")
  case False
  then have "tileAt s y x = None" by (simp add: tileAt_cells)
  then show ?thesis by (simp add: chord_def)
next
  case True
  then have t: "tileAt s y x = Some (cell (board s) (x, y))" by (simp add: tileAt_cells)
  from assms True show ?thesis
    unfolding chord_def t by (elim disjE) (simp_all add: Let_def)
qed

lemma chord_go:
  assumes "status s = Playing" and "(x, y) \<in> cells (rows s) (cols s)"
    and "isRevealed (cell (board s) (x, y))" and "\<not> isMine (cell (board s) (x, y))"
    and "adjacentMines (cell (board s) (x, y)) \<noteq> 0"
    and "length (filter isFlagged (neighbors (board s) (tile_x (cell (board s) (x, y)))
            (tile_y (cell (board s) (x, y))))) = adjacentMines (cell (board s) (x, y))"
    and "foldl chord_step (board s, False) (neighbors (board s) (tile_x (cell (board s) (x, y)))
            (tile_y (cell (board s) (x, y)))) = (b', h)"
  shows "chord s x y =
      (if h then s\<lparr>board := revealAllMines b', status := Lost\<rparr>
       else if countHiddenNonMines b' = 0 then s\<lparr>board := b', status := Won\<rparr>
       else s\<lparr>board := b'\<rparr>)"
  using assms by (simp add: chord_def tileAt_cells Let_def)

lemma game_inv_chord:
  assumes inv: "game_inv s"
  shows "game_inv (chord s x y)"
proof (cases "status s = Playing \<and> (x, y) \<in> cells (rows s) (cols s)
    \<and> isRevealed (cell (board s) (x, y)) \<and> \<not> isMine (cell (board s) (x, y))
    \<and> adjacentMines (cell (board s) (x, y)) \<noteq> 0
    \<and> length (filter isFlagged (neighbors (board s) x y)) = adjacentMines (cell (board s) (x, y))")
  case False
  have "chord s x y = s"
  proof (cases "(x, y) \<in> cells (rows s) (cols s)")
    case True
    from game_inv_cell_coords [OF inv True] False True show ?thesis
      by (intro chord_skip) auto
  next
    case False
    then show ?thesis by (intro chord_skip) simp
  qed
  with inv show ?thesis by simp
next
  case True
  let ?r = "rows s" and ?c = "cols s" and ?b = "board s"
  let ?t = "cell ?b (x, y)"
  let ?ns = "neighbors ?b x y"
  from True have pl: "status s = Playing" and q: "(x, y) \<in> cells ?r ?c"
    and t: "isRevealed ?t" "\<not> isMine ?t" "adjacentMines ?t \<noteq> 0"
    and fl: "length (filter isFlagged ?ns) = adjacentMines ?t" by simp_all
  note xy = game_inv_cell_coords [OF inv q]
  note r = game_inv_rect [OF inv] and pos = game_inv_pos [OF inv]
  note co = game_inv_coords [OF inv] and cs = game_inv_consistent [OF inv]
  have nfc: "\<not> firstClick s" using game_inv_ready [OF inv] pl by simp
  have nf: "\<not> (isRevealed (cell ?b p) \<and> isFlagged (cell ?b p))" if "p \<in> cells ?r ?c" for p
    using game_inv_flag [OF inv that] pl by auto
  obtain b' h where res: "foldl chord_step (?b, False) ?ns = (b', h)"
    by (cases "foldl chord_step (?b, False) ?ns")
  have eq: "chord s x y =
      (if h then s\<lparr>board := revealAllMines b', status := Lost\<rparr>
       else if countHiddenNonMines b' = 0 then s\<lparr>board := b', status := Won\<rparr>
       else s\<lparr>board := b'\<rparr>)"
    by (rule chord_go) (use True xy res in simp_all)
  have ns: "\<forall>n \<in> set ?ns. \<exists>p \<in> cells ?r ?c. n = cell ?b p"
    using set_neighbors [OF r, of x y] adjacent_cells_sub [of ?r ?c x y] by auto
  from chord_loop_reveals [OF r _ co ns only_reveals_refl [OF r] res] pos
  have o: "only_reveals ?b b' ?r ?c"
    and h: "h \<longleftrightarrow> (\<exists>n \<in> set ?ns. \<not> isFlagged n \<and> \<not> isRevealed n \<and> isMine n)"
    by simp_all
  show ?thesis
  proof (cases h)
    case True
    with h have "\<exists>n \<in> set ?ns. isMine n \<and> \<not> isFlagged n" by auto
    moreover have "length (filter isFlagged ?ns) = length (filter isMine ?ns)"
      using fl consistentD [OF cs q] t(2) by (simp add: neighbors_mine_count [OF r])
    ultimately have "\<exists>f \<in> set ?ns. isFlagged f \<and> \<not> isMine f"
      by (rule filter_count_exchange [rotated])
    then obtain p where p: "p \<in> cells ?r ?c" "isFlagged (cell ?b p)" "\<not> isMine (cell ?b p)"
      using ns by auto
    from nf [OF p(1)] p(2) have "\<not> isRevealed (cell ?b p)" by simp
    with o p have "cell b' p = cell ?b p" by (auto simp: only_reveals_def)
    with p \<open>\<not> isRevealed (cell ?b p)\<close> have "p \<in> hidden_safe b' ?r ?c"
      by (simp add: hidden_safe_def)
    then have "hidden_safe b' ?r ?c \<noteq> {}" by blast
    with True show ?thesis unfolding eq
      by (intro game_inv_lost [where b = ?b and ?b1.0 = b' and r = ?r and c = ?c])
        (use r pos co cs nf nfc o in \<open>simp_all\<close>)
  next
    case False
    have z: "countHiddenNonMines b' = 0 \<longleftrightarrow> hidden_safe b' ?r ?c = {}"
      by (rule countHiddenNonMines_zero [OF only_reveals_rect [OF o]])
    from False show ?thesis unfolding eq
      by (intro game_inv_reveals [where b = ?b and b' = b' and r = ?r and c = ?c])
        (use r pos co cs nf nfc o z pl in \<open>simp_all\<close>)
  qed
qed

lemma game_inv_exec: "game_inv s \<Longrightarrow> valid_command cmd \<Longrightarrow> game_inv (exec cmd s)"
  by (cases cmd)
    (simp_all add: game_inv_newGame game_inv_restart game_inv_reveal
      game_inv_toggleFlag game_inv_chord game_inv_useHint game_inv_tick)

lemma reachable_inv: "reachable s \<Longrightarrow> game_inv s"
  by (induction rule: reachable.induct) (simp_all add: game_inv_init game_inv_exec)

section \<open>Winning, losing and flags in the reachable states\<close>

text \<open>
  Claim C3. In every state reachable by commands from a new game with a board, the status
  is \<open>Won\<close> if and only if the number of tiles that are neither a mine nor revealed is 0;
  that number is the one \<open>countHiddenNonMines\<close> computes.
\<close>

theorem won_iff_no_hidden_safe_tile:
  assumes "reachable s"
  shows "(status s = Won \<longleftrightarrow>
           card {p \<in> cells (rows s) (cols s).
                   \<not> isMine (cell (board s) p) \<and> \<not> isRevealed (cell (board s) p)} = 0)
       \<and> countHiddenNonMines (board s)
           = card {p \<in> cells (rows s) (cols s).
                     \<not> isMine (cell (board s) p) \<and> \<not> isRevealed (cell (board s) p)}"
proof -
  note inv = reachable_inv [OF assms]
  have c: "countHiddenNonMines (board s) = card (hidden_safe (board s) (rows s) (cols s))"
    by (rule countHiddenNonMines_card [OF game_inv_rect [OF inv]])
  from game_inv_won [OF inv] c show ?thesis
    by (simp add: hidden_safe_def [symmetric])
qed

theorem won_iff_no_hidden_safe_tile_witness:
  "reachable (reveal (\<lambda>i. 0) 0 (initialState 2 2 0 Custom) 0 0)
   \<and> status (reveal (\<lambda>i. 0) 0 (initialState 2 2 0 Custom) 0 0) = Won
   \<and> countHiddenNonMines (board (reveal (\<lambda>i. 0) 0 (initialState 2 2 0 Custom) 0 0)) = 0
   \<and> reachable (reveal (\<lambda>i. i) 5 (initialState 4 4 3 Custom) 0 0)
   \<and> status (reveal (\<lambda>i. i) 5 (initialState 4 4 3 Custom) 0 0) = Playing
   \<and> countHiddenNonMines (board (reveal (\<lambda>i. i) 5 (initialState 4 4 3 Custom) 0 0)) \<noteq> 0"
proof -
  have r0: "reachable (initialState 2 2 0 Custom)" "reachable (initialState 4 4 3 Custom)"
    by (simp_all add: reachable.start)
  have r1: "reachable (reveal (\<lambda>i. 0) 0 (initialState 2 2 0 Custom) 0 0)"
    using reachable.step [OF r0(1), of "Reveal (\<lambda>i. 0) 0 0 0"] by simp
  have r2: "reachable (reveal (\<lambda>i. i) 5 (initialState 4 4 3 Custom) 0 0)"
    using reachable.step [OF r0(2), of "Reveal (\<lambda>i. i) 5 0 0"] by simp
  have e: "status (reveal (\<lambda>i. 0) 0 (initialState 2 2 0 Custom) 0 0) = Won"
    "status (reveal (\<lambda>i. i) 5 (initialState 4 4 3 Custom) 0 0) = Playing"
    by code_simp+
  from won_iff_no_hidden_safe_tile [OF r1] won_iff_no_hidden_safe_tile [OF r2] e r1 r2
  show ?thesis by simp
qed

text \<open>
  Claim C10. In every reachable state a tile that is both revealed and flagged is a mine,
  and the game is lost. The step that reveals all mines on a loss is what produces such
  tiles: it reveals a flagged mine and keeps its flag.
\<close>

theorem revealed_flag_only_on_lost_mine:
  "(reachable s \<longrightarrow>
      (\<forall>(x, y) \<in> cells (rows s) (cols s).
         isRevealed (board s ! nat y ! nat x) \<and> isFlagged (board s ! nat y ! nat x) \<longrightarrow>
           isMine (board s ! nat y ! nat x) \<and> status s = Lost))
   \<and> (rect b r c \<longrightarrow>
      (\<forall>(x, y) \<in> cells r c.
         isMine (b ! nat y ! nat x) \<and> isFlagged (b ! nat y ! nat x) \<longrightarrow>
           isRevealed (revealAllMines b ! nat y ! nat x)
           \<and> isFlagged (revealAllMines b ! nat y ! nat x)))"
proof (intro conjI impI ballI; clarify)
  fix x y
  assume "reachable s" and q: "(x, y) \<in> cells (rows s) (cols s)"
    and "isRevealed (board s ! nat y ! nat x)" "isFlagged (board s ! nat y ! nat x)"
  with game_inv_flag [OF reachable_inv, of s "(x, y)"]
  show "isMine (board s ! nat y ! nat x) \<and> status s = Lost"
    by (simp add: cell_simp)
next
  fix x y
  assume "rect b r c" "(x, y) \<in> cells r c"
    and "isMine (b ! nat y ! nat x)" "isFlagged (b ! nat y ! nat x)"
  with cell_revealAllMines [of b r c "(x, y)"]
  show "isRevealed (revealAllMines b ! nat y ! nat x) \<and> isFlagged (revealAllMines b ! nat y ! nat x)"
    by (simp add: cell_simp)
qed

theorem revealed_flag_only_on_lost_mine_witness:
  "reachable (reveal (\<lambda>i. i) 9 (toggleFlag (reveal (\<lambda>i. i) 5 (initialState 4 4 3 Custom) 0 0) 2 0) 3 0)
   \<and> isRevealed (board (reveal (\<lambda>i. i) 9 (toggleFlag (reveal (\<lambda>i. i) 5 (initialState 4 4 3 Custom) 0 0) 2 0) 3 0) ! nat 0 ! nat 2)
   \<and> isFlagged (board (reveal (\<lambda>i. i) 9 (toggleFlag (reveal (\<lambda>i. i) 5 (initialState 4 4 3 Custom) 0 0) 2 0) 3 0) ! nat 0 ! nat 2)
   \<and> isMine (board (reveal (\<lambda>i. i) 9 (toggleFlag (reveal (\<lambda>i. i) 5 (initialState 4 4 3 Custom) 0 0) 2 0) 3 0) ! nat 0 ! nat 2)
   \<and> status (reveal (\<lambda>i. i) 9 (toggleFlag (reveal (\<lambda>i. i) 5 (initialState 4 4 3 Custom) 0 0) 2 0) 3 0) = Lost"
proof -
  let ?s1 = "reveal (\<lambda>i. i) 5 (initialState 4 4 3 Custom) 0 0"
  let ?s2 = "toggleFlag ?s1 2 0"
  let ?s3 = "reveal (\<lambda>i. i) 9 ?s2 3 0"
  have "reachable (initialState 4 4 3 Custom)" by (simp add: reachable.start)
  from reachable.step [OF this, of "Reveal (\<lambda>i. i) 5 0 0"]
  have "reachable ?s1" by simp
  from reachable.step [OF this, of "ToggleFlag 2 0"]
  have "reachable ?s2" by simp
  from reachable.step [OF this, of "Reveal (\<lambda>i. i) 9 3 0"]
  have r: "reachable ?s3" by simp
  have e: "isRevealed (board ?s3 ! nat 0 ! nat 2)" "isFlagged (board ?s3 ! nat 0 ! nat 2)"
    "(2, 0) \<in> cells (rows ?s3) (cols ?s3)"
    by code_simp+
  from revealed_flag_only_on_lost_mine [of ?s3 "[]" 0 0] r
  have "\<forall>(x, y) \<in> cells (rows ?s3) (cols ?s3).
         isRevealed (board ?s3 ! nat y ! nat x) \<and> isFlagged (board ?s3 ! nat y ! nat x) \<longrightarrow>
           isMine (board ?s3 ! nat y ! nat x) \<and> status ?s3 = Lost" by blast
  from bspec [OF this e(3)] e r show ?thesis by simp
qed

section \<open>Status transitions\<close>

lemma reveal_status_cases:
  "status (reveal rnd now s x y) = status s \<or> status (reveal rnd now s x y) = Won
   \<or> (\<not> firstClick s \<and> status (reveal rnd now s x y) = Lost)
   \<or> (firstClick s \<and> status (reveal rnd now s x y) = Lost
        \<and> (x, y) \<in> cells (rows s) (cols s) \<and> isMine (cell (board s) (x, y)))
   \<or> (firstClick s \<and> status (reveal rnd now s x y) = Playing)"
  by (simp add: reveal_def tileAt_cells Let_def)

lemma reveal_status_moves:
  assumes "game_inv s"
  shows "status_moves (status s) (status (reveal rnd now s x y))"
proof (cases "firstClick s")
  case True
  then have r: "status s = Ready" using game_inv_ready [OF assms] by simp
  from game_inv_fresh [OF assms r] reveal_status_cases [of rnd now s x y] True r
  show ?thesis by (auto simp: status_moves_def)
next
  case False
  then have "status s \<noteq> Ready" using game_inv_ready [OF assms] by simp
  moreover have "status s = Won \<or> status s = Lost \<Longrightarrow> reveal rnd now s x y = s"
    by (auto simp: reveal_def)
  ultimately show ?thesis using reveal_status_cases [of rnd now s x y] False
    by (cases "status s") (auto simp: status_moves_def)
qed

lemma chord_status_moves: "status_moves (status s) (status (chord s x y))"
  by (simp add: chord_def status_moves_def Let_def split: option.split prod.split)

lemma toggleFlag_status [simp]: "status (toggleFlag s x y) = status s"
  by (simp add: toggleFlag_def Let_def split: option.split)

lemma tick_status [simp]: "status (tick now s) = status s"
  by (simp add: tick_def split: option.split)

lemma useHint_status_moves:
  "game_inv s \<Longrightarrow> status_moves (status s) (status (useHint rnd now s))"
  using reveal_status_moves [of s rnd now]
  by (auto simp: useHint_def Let_def status_moves_def split: option.split prod.split)

lemma terminal_exec:
  "status s = Won \<or> status s = Lost \<Longrightarrow> player_command cmd \<Longrightarrow> exec cmd s = s"
  by (cases cmd)
    (auto simp: reveal_def toggleFlag_def chord_def useHint_def tick_def split: option.split)

text \<open>
  Claim C4, as stated, fails: one command can take the status from \<open>Ready\<close> to \<open>Won\<close>
  with no snapshot in between whose status is \<open>Playing\<close>. On a 2 x 2 board without
  mines the first reveal reveals every tile and the game is won at once (the status is
  \<open>Playing\<close> only inside the command).
\<close>

theorem status_transitions_counterexample:
  "reachable (initialState 2 2 0 Custom)
   \<and> status (initialState 2 2 0 Custom) = Ready
   \<and> status (exec (Reveal (\<lambda>i. 0) 0 0 0) (initialState 2 2 0 Custom)) = Won"
proof -
  have "reachable (initialState 2 2 0 Custom)" by (simp add: reachable.start)
  moreover have "status (initialState 2 2 0 Custom) = Ready" by simp
  moreover have "status (exec (Reveal (\<lambda>i. 0) 0 0 0) (initialState 2 2 0 Custom)) = Won"
    by code_simp
  ultimately show ?thesis by blast
qed

text \<open>
  Claim C4, amended. From a reachable state, a command other than \<open>newGame\<close> and
  \<open>restart\<close> either keeps the status, or takes it from \<open>Ready\<close> to \<open>Playing\<close> or (a first
  reveal that clears the board) to \<open>Won\<close>, or from \<open>Playing\<close> to \<open>Won\<close> or \<open>Lost\<close>; and
  once the status is \<open>Won\<close> or \<open>Lost\<close> such a command returns the snapshot unchanged, board
  and status included.
\<close>

theorem status_transitions:
  assumes "reachable s" and "player_command cmd"
  shows "(status (exec cmd s) = status s
          \<or> (status s = Ready \<and> (status (exec cmd s) = Playing \<or> status (exec cmd s) = Won))
          \<or> (status s = Playing \<and> (status (exec cmd s) = Won \<or> status (exec cmd s) = Lost)))
       \<and> (status s = Won \<or> status s = Lost \<longrightarrow>
            exec cmd s = s \<and> board (exec cmd s) = board s \<and> status (exec cmd s) = status s)"
proof -
  note inv = reachable_inv [OF assms(1)]
  have "status_moves (status s) (status (exec cmd s))"
    using assms(2) reveal_status_moves [OF inv] chord_status_moves useHint_status_moves [OF inv]
    by (cases cmd) (simp_all add: status_moves_def)
  moreover have "status s = Won \<or> status s = Lost \<longrightarrow> exec cmd s = s"
    using terminal_exec [OF _ assms(2)] by blast
  ultimately show ?thesis by (auto simp: status_moves_def)
qed

theorem status_transitions_witness:
  "reachable (reveal (\<lambda>i. i) 9 (reveal (\<lambda>i. i) 5 (initialState 4 4 3 Custom) 0 0) 3 0)
   \<and> player_command (Chord 1 0)
   \<and> status (reveal (\<lambda>i. i) 9 (reveal (\<lambda>i. i) 5 (initialState 4 4 3 Custom) 0 0) 3 0) = Lost
   \<and> exec (Chord 1 0) (reveal (\<lambda>i. i) 9 (reveal (\<lambda>i. i) 5 (initialState 4 4 3 Custom) 0 0) 3 0)
       = reveal (\<lambda>i. i) 9 (reveal (\<lambda>i. i) 5 (initialState 4 4 3 Custom) 0 0) 3 0
   \<and> status (reveal (\<lambda>i. i) 5 (initialState 4 4 3 Custom) 0 0) = Playing"
proof -
  let ?s1 = "reveal (\<lambda>i. i) 5 (initialState 4 4 3 Custom) 0 0"
  let ?s2 = "reveal (\<lambda>i. i) 9 ?s1 3 0"
  have r0: "reachable (initialState 4 4 3 Custom)" by (simp add: reachable.start)
  from reachable.step [OF this, of "Reveal (\<lambda>i. i) 5 0 0"]
  have r1: "reachable ?s1" by simp
  from reachable.step [OF this, of "Reveal (\<lambda>i. i) 9 3 0"]
  have r2: "reachable ?s2" by simp
  have p: "player_command (Chord 1 0)" "player_command (Reveal (\<lambda>i. i) 5 0 0)" by simp_all
  have e: "status ?s2 = Lost" by code_simp
  from status_transitions [OF r0 p(2)]
  have "status ?s1 = Ready \<or> status ?s1 = Playing \<or> status ?s1 = Won" by simp
  moreover have "status ?s1 \<noteq> Won" "status ?s1 \<noteq> Ready" by code_simp+
  ultimately have "status ?s1 = Playing" by blast
  with status_transitions [OF r2 p(1)] e r2 show ?thesis by simp
qed

section \<open>New games\<close>

lemma inert_without_cells:
  assumes "rows s \<le> 0 \<or> cols s \<le> 0" and "status s = Ready"
  shows "reveal rnd now s x y = s" and "toggleFlag s x y = s" and "chord s x y = s"
    and "useHint rnd now s = s"
proof -
  from assms(1) have n: "tileAt s y x = None" for x y by (auto simp: tileAt_def)
  show "reveal rnd now s x y = s" by (simp add: reveal_def n)
  show "toggleFlag s x y = s" by (simp add: toggleFlag_def n)
  show "chord s x y = s" using assms(2) by (simp add: chord_def)
  from assms(1) have "row_major (rows s) (cols s) = []"
    by (auto simp: row_major_def)
  then show "useHint rnd now s = s" by (simp add: useHint_def hint_target_def)
qed

text \<open>
  Claim C2, as stated, fails: \<open>newGame\<close> checks nothing. Called with no rows, with no
  columns, with a negative mine count or with more mines than cells, it throws nothing,
  replaces the snapshot by a fresh one and stores the mine count as given.
\<close>

theorem newGame_never_rejects_counterexample:
  "newGame (initialState 9 9 10 Beginner) 0 5 1 Custom = Inr (initialState 0 5 1 Custom)
   \<and> exec (NewGame 0 5 1 Custom) (initialState 9 9 10 Beginner) \<noteq> initialState 9 9 10 Beginner
   \<and> newGame (initialState 9 9 10 Beginner) 5 0 1 Custom = Inr (initialState 5 0 1 Custom)
   \<and> exec (NewGame 5 0 1 Custom) (initialState 9 9 10 Beginner) \<noteq> initialState 9 9 10 Beginner
   \<and> newGame (initialState 9 9 10 Beginner) 5 5 (- 1) Custom = Inr (initialState 5 5 (- 1) Custom)
   \<and> exec (NewGame 5 5 (- 1) Custom) (initialState 9 9 10 Beginner) \<noteq> initialState 9 9 10 Beginner
   \<and> newGame (initialState 9 9 10 Beginner) 3 3 9 Custom = Inr (initialState 3 3 9 Custom)
   \<and> exec (NewGame 3 3 9 Custom) (initialState 9 9 10 Beginner) \<noteq> initialState 9 9 10 Beginner
   \<and> mines (exec (NewGame 5 5 (- 1) Custom) (initialState 9 9 10 Beginner)) = - 1
   \<and> mines (exec (NewGame 3 3 9 Custom) (initialState 9 9 10 Beginner)) = 9
   \<and> status (exec (NewGame 0 5 1 Custom) (initialState 9 9 10 Beginner)) = Ready"
  by (simp add: newGame_def createMatrix_throws_def snapshot_after_def initialState_def)

text \<open>
  Claim C2, amended. \<open>newGame\<close> validates no configuration. Whenever the board can be
  built, that is \<open>rows < 2^32\<close> and, if there is a row, \<open>cols < 2^32\<close>, it commits a fresh
  snapshot for every configuration, valid or not: status \<open>Ready\<close>, first click pending,
  \<open>rows\<close>, \<open>cols\<close> and \<open>mines\<close> stored as given, and a board of \<open>max rows 0\<close> rows of
  \<open>max cols 0\<close> hidden, unflagged tiles without mines; when \<open>rows \<le> 0\<close> or \<open>cols \<le> 0\<close>
  the board has no cell and \<open>reveal\<close>, \<open>toggleFlag\<close>, \<open>chord\<close> and \<open>useHint\<close> leave that
  snapshot unchanged. Only an array length of \<open>2^32\<close> or more stops it: building the board
  then throws a \<open>RangeError\<close>, which is no check of the configuration, and the snapshot
  stays as it was.
\<close>

theorem newGame_never_rejects:
  "(r < 4294967296 \<and> (r \<le> 0 \<or> c < 4294967296) \<longrightarrow>
      newGame s r c m d = Inr (initialState r c m d)
      \<and> exec (NewGame r c m d) s = initialState r c m d
      \<and> status (initialState r c m d) = Ready \<and> firstClick (initialState r c m d)
      \<and> rows (initialState r c m d) = r \<and> cols (initialState r c m d) = c
      \<and> mines (initialState r c m d) = m \<and> minesLeft (initialState r c m d) = m
      \<and> difficulty (initialState r c m d) = d
      \<and> flagsPlaced (initialState r c m d) = 0 \<and> hintsLeft (initialState r c m d) = 3
      \<and> int (length (board (initialState r c m d))) = max r 0
      \<and> (\<forall>row \<in> set (board (initialState r c m d)).
           int (length row) = max c 0
           \<and> (\<forall>t \<in> set row. \<not> isMine t \<and> \<not> isRevealed t \<and> \<not> isFlagged t
                 \<and> adjacentMines t = 0))
      \<and> (r \<le> 0 \<or> c \<le> 0 \<longrightarrow>
           reveal rnd now (initialState r c m d) x y = initialState r c m d
           \<and> toggleFlag (initialState r c m d) x y = initialState r c m d
           \<and> chord (initialState r c m d) x y = initialState r c m d
           \<and> useHint rnd now (initialState r c m d) = initialState r c m d))
   \<and> (r \<ge> 4294967296 \<or> (r > 0 \<and> c \<ge> 4294967296) \<longrightarrow>
      newGame s r c m d = Inl RangeError \<and> exec (NewGame r c m d) s = s)"
proof -
  have inert: "reveal rnd now (initialState r c m d) x y = initialState r c m d
      \<and> toggleFlag (initialState r c m d) x y = initialState r c m d
      \<and> chord (initialState r c m d) x y = initialState r c m d
      \<and> useHint rnd now (initialState r c m d) = initialState r c m d"
    if "r \<le> 0 \<or> c \<le> 0"
    using that inert_without_cells [where s = "initialState r c m d"] by simp
  have len: "int (length (board (initialState r c m d))) = max r 0"
    by (simp add: initialState_def createMatrix_def)
  have tiles: "\<forall>row \<in> set (board (initialState r c m d)).
           int (length row) = max c 0
           \<and> (\<forall>t \<in> set row. \<not> isMine t \<and> \<not> isRevealed t \<and> \<not> isFlagged t
                 \<and> adjacentMines t = 0)"
    by (auto simp: initialState_def createMatrix_def)
  have built: "newGame s r c m d = Inr (initialState r c m d)
      \<and> exec (NewGame r c m d) s = initialState r c m d"
    if "r < 4294967296 \<and> (r \<le> 0 \<or> c < 4294967296)"
  proof -
    from that have "\<not> createMatrix_throws r c" by (auto simp: createMatrix_throws_def)
    then show ?thesis by (simp add: newGame_def snapshot_after_def)
  qed
  have thrown: "newGame s r c m d = Inl RangeError \<and> exec (NewGame r c m d) s = s"
    if "r \<ge> 4294967296 \<or> (r > 0 \<and> c \<ge> 4294967296)"
  proof -
    from that have "createMatrix_throws r c" by (simp add: createMatrix_throws_def)
    then show ?thesis by (simp add: newGame_def snapshot_after_def)
  qed
  have fields: "status (initialState r c m d) = Ready \<and> firstClick (initialState r c m d)
      \<and> rows (initialState r c m d) = r \<and> cols (initialState r c m d) = c
      \<and> mines (initialState r c m d) = m \<and> minesLeft (initialState r c m d) = m
      \<and> difficulty (initialState r c m d) = d
      \<and> flagsPlaced (initialState r c m d) = 0 \<and> hintsLeft (initialState r c m d) = 3"
    by (simp add: initialState_def)
  from inert len tiles built thrown fields show ?thesis by blast
qed

theorem newGame_never_rejects_witness:
  "newGame (initialState 9 9 10 Beginner) 0 5 1 Custom = Inr (initialState 0 5 1 Custom)
   \<and> board (initialState 0 5 1 Custom) = []
   \<and> reveal (\<lambda>i. 0) 7 (initialState 0 5 1 Custom) 0 0 = initialState 0 5 1 Custom
   \<and> exec (NewGame 5 5 (- 1) Custom) (initialState 9 9 10 Beginner) = initialState 5 5 (- 1) Custom
   \<and> int (length (board (initialState 5 5 (- 1) Custom))) = 5
   \<and> newGame (initialState 9 9 10 Beginner) 4294967296 1 1 Custom = Inl RangeError
   \<and> exec (NewGame 4294967296 1 1 Custom) (initialState 9 9 10 Beginner)
       = initialState 9 9 10 Beginner"
proof -
  have a: "newGame (initialState 9 9 10 Beginner) 0 5 1 Custom = Inr (initialState 0 5 1 Custom)
      \<and> int (length (board (initialState 0 5 1 Custom))) = max 0 0
      \<and> reveal (\<lambda>i. 0) 7 (initialState 0 5 1 Custom) 0 0 = initialState 0 5 1 Custom"
    using newGame_never_rejects
      [where r = 0 and c = 5 and s = "initialState 9 9 10 Beginner" and m = 1 and d = Custom
         and rnd = "\<lambda>i. 0" and now = 7 and x = 0 and y = 0]
    by simp
  have b: "exec (NewGame 5 5 (- 1) Custom) (initialState 9 9 10 Beginner)
        = initialState 5 5 (- 1) Custom
      \<and> int (length (board (initialState 5 5 (- 1) Custom))) = max 5 0"
    using newGame_never_rejects
      [where r = 5 and c = 5 and s = "initialState 9 9 10 Beginner" and m = "- 1" and d = Custom]
    by (simp add: snapshot_after_def)
  have c: "newGame (initialState 9 9 10 Beginner) 4294967296 1 1 Custom = Inl RangeError
      \<and> exec (NewGame 4294967296 1 1 Custom) (initialState 9 9 10 Beginner)
          = initialState 9 9 10 Beginner"
    using newGame_never_rejects
      [where r = 4294967296 and c = 1 and s = "initialState 9 9 10 Beginner" and m = 1
         and d = Custom]
    by (simp add: snapshot_after_def)
  from a b c show ?thesis by (simp add: snapshot_after_def)
qed

section \<open>The flood fill: what it reveals\<close>

lemma enqueue_sets:
  assumes "enqueue r c (q, v) p = (q', v')" and "set q \<subseteq> set v" and "distinct q"
  shows "set v' = set v \<union> ({p} \<inter> cells r c)"
    and "set q' = set q \<union> (({p} \<inter> cells r c) - set v)"
    and "distinct q'" and "set q' \<subseteq> set v'"
  using assms by (cases p; auto simp: enqueue_def split: if_splits)+

lemma enqueue_all_sets:
  assumes "foldl (enqueue r c) (q, v) ps = (q', v')" and "set q \<subseteq> set v" and "distinct q"
  shows "set v' = set v \<union> (set ps \<inter> cells r c)
     \<and> set q' = set q \<union> ((set ps \<inter> cells r c) - set v)
     \<and> distinct q' \<and> set q' \<subseteq> set v'"
  using assms
proof (induction ps arbitrary: q v)
  case Nil
  then show ?case by auto
next
  case (Cons p ps)
  obtain q1 v1 where e: "enqueue r c (q, v) p = (q1, v1)" by (cases "enqueue r c (q, v) p")
  note s = enqueue_sets [OF e Cons.prems(2,3)]
  from Cons.prems(1) e have "foldl (enqueue r c) (q1, v1) ps = (q', v')" by simp
  from Cons.IH [OF this s(4,3)] s(1,2) show ?case by auto
qed

lemma around_cells: "set (around x y) \<inter> cells r c = {q \<in> cells r c. adjacent (x, y) q}"
  by (auto simp: set_around adjacent_def)

lemma fill_reach_cells: "p \<in> fill_reach b r c start \<Longrightarrow> p \<in> cells r c"
  by (induction rule: fill_reach.induct) simp_all

lemma fill_invI:
  assumes "rect out r c" and "set visited \<subseteq> fill_reach b r c start"
    and "set queue \<subseteq> set visited" and "distinct queue"
    and "\<And>p. p \<in> cells r c \<Longrightarrow> cell out p =
            (if p \<in> set visited - set queue \<and> \<not> isRevealed (cell b p) \<and> \<not> isFlagged (cell b p)
             then (cell b p)\<lparr>isRevealed := True\<rparr> else cell b p)"
    and "\<And>p q. p \<in> set visited - set queue \<Longrightarrow> spreads b p \<Longrightarrow> q \<in> cells r c \<Longrightarrow>
            adjacent p q \<Longrightarrow> q \<in> set visited"
    and "start \<in> cells r c \<Longrightarrow> start \<in> set visited"
  shows "fill_inv b r c start out queue visited"
  unfolding fill_inv_def using assms by blast

lemma fill_inv_rect: "fill_inv b r c start out queue visited \<Longrightarrow> rect out r c"
  unfolding fill_inv_def by (elim conjE)

lemma fill_inv_visited:
  "fill_inv b r c start out queue visited \<Longrightarrow> set visited \<subseteq> fill_reach b r c start"
  unfolding fill_inv_def by (elim conjE)

lemma fill_inv_queue:
  "fill_inv b r c start out queue visited \<Longrightarrow> set queue \<subseteq> set visited \<and> distinct queue"
  unfolding fill_inv_def by (elim conjE, intro conjI)

lemma fill_inv_cell:
  "fill_inv b r c start out queue visited \<Longrightarrow> p \<in> cells r c \<Longrightarrow> cell out p =
     (if p \<in> set visited - set queue \<and> \<not> isRevealed (cell b p) \<and> \<not> isFlagged (cell b p)
      then (cell b p)\<lparr>isRevealed := True\<rparr> else cell b p)"
  unfolding fill_inv_def by (elim conjE, erule bspec)

lemma fill_inv_closed:
  "fill_inv b r c start out queue visited \<Longrightarrow> p \<in> set visited - set queue \<Longrightarrow> spreads b p
     \<Longrightarrow> q \<in> cells r c \<Longrightarrow> adjacent p q \<Longrightarrow> q \<in> set visited"
  unfolding fill_inv_def by (elim conjE) (drule (1) bspec, drule (1) mp, drule (1) bspec, erule (1) mp)

lemma fill_inv_start:
  "fill_inv b r c start out queue visited \<Longrightarrow> start \<in> cells r c \<Longrightarrow> start \<in> set visited"
  unfolding fill_inv_def by (elim conjE, erule (1) mp)

lemma fill_inv_head:
  assumes "fill_inv b r c start out ((x, y) # queue) visited"
  shows "(x, y) \<in> cells r c" and "(x, y) \<in> set visited" and "(x, y) \<notin> set queue"
    and "cell out (x, y) = cell b (x, y)"
    and "set visited - set queue = insert (x, y) (set visited - set ((x, y) # queue))"
proof -
  from fill_inv_queue [OF assms] show v: "(x, y) \<in> set visited" and n: "(x, y) \<notin> set queue"
    by simp_all
  from v fill_inv_visited [OF assms] have "(x, y) \<in> fill_reach b r c start" by blast
  then show c: "(x, y) \<in> cells r c" by (rule fill_reach_cells)
  have "(x, y) \<notin> set visited - set ((x, y) # queue)" by simp
  with fill_inv_cell [OF assms c] show "cell out (x, y) = cell b (x, y)" by (simp only: if_False simp_thms)
  from v n show "set visited - set queue = insert (x, y) (set visited - set ((x, y) # queue))"
    by auto
qed

lemma fill_inv_skip:
  assumes inv: "fill_inv b r c start out ((x, y) # queue) visited"
    and t: "isRevealed (cell out (x, y)) \<or> isFlagged (cell out (x, y))"
  shows "fill_inv b r c start out queue visited"
proof (rule fill_invI)
  note h = fill_inv_head [OF inv]
  from t h(4) have t': "isRevealed (cell b (x, y)) \<or> isFlagged (cell b (x, y))" by simp
  show "rect out r c" by (rule fill_inv_rect [OF inv])
  show "set visited \<subseteq> fill_reach b r c start" by (rule fill_inv_visited [OF inv])
  from fill_inv_queue [OF inv] show "set queue \<subseteq> set visited" "distinct queue" by simp_all
  show "cell out p =
       (if p \<in> set visited - set queue \<and> \<not> isRevealed (cell b p) \<and> \<not> isFlagged (cell b p)
        then (cell b p)\<lparr>isRevealed := True\<rparr> else cell b p)" if p: "p \<in> cells r c" for p
  proof (cases "p = (x, y)")
    case True
    with t' h(4) show ?thesis by auto
  next
    case False
    then have "p \<in> set visited - set queue \<longleftrightarrow> p \<in> set visited - set ((x, y) # queue)"
      by auto
    with fill_inv_cell [OF inv p] show ?thesis by simp
  qed
  show "q \<in> set visited" if a: "p \<in> set visited - set queue" "spreads b p" "q \<in> cells r c"
    "adjacent p q" for p q
  proof (cases "p = (x, y)")
    case True
    with a(2) t' show ?thesis by (simp add: spreads_def)
  next
    case False
    with a(1) have "p \<in> set visited - set ((x, y) # queue)" by auto
    from fill_inv_closed [OF inv this a(2,3,4)] show ?thesis .
  qed
  show "start \<in> set visited" if "start \<in> cells r c"
    by (rule fill_inv_start [OF inv that])
qed

lemma fill_inv_reveal:
  assumes inv: "fill_inv b r c start out ((x, y) # queue) visited"
    and t: "\<not> isRevealed (cell out (x, y))" "\<not> isFlagged (cell out (x, y))"
    and q': "set queue' \<subseteq> set visited'" "distinct queue'" "set visited \<subseteq> set visited'"
      "set visited' \<subseteq> fill_reach b r c start"
      "set visited' - set queue' = set visited - set queue"
    and sp: "\<And>q. spreads b (x, y) \<Longrightarrow> q \<in> cells r c \<Longrightarrow> adjacent (x, y) q \<Longrightarrow> q \<in> set visited'"
  shows "fill_inv b r c start (set_tile out y x ((cell out (x, y))\<lparr>isRevealed := True\<rparr>))
           queue' visited'"
proof (rule fill_invI)
  note h = fill_inv_head [OF inv]
  note ro = fill_inv_rect [OF inv]
  let ?out' = "set_tile out y x ((cell out (x, y))\<lparr>isRevealed := True\<rparr>)"
  show "rect ?out' r c" using ro by simp
  show "set visited' \<subseteq> fill_reach b r c start" "set queue' \<subseteq> set visited'" "distinct queue'"
    by fact+
  show "cell ?out' p =
       (if p \<in> set visited' - set queue' \<and> \<not> isRevealed (cell b p) \<and> \<not> isFlagged (cell b p)
        then (cell b p)\<lparr>isRevealed := True\<rparr> else cell b p)" if p: "p \<in> cells r c" for p
  proof (cases "p = (x, y)")
    case True
    have "(x, y) \<in> set visited' - set queue'" unfolding q'(5) using h(2,3) by simp
    with True t h(4) show ?thesis by (simp add: cell_set_tile [OF ro h(1) h(1)])
  next
    case False
    then have "p \<in> set visited' - set queue' \<longleftrightarrow> p \<in> set visited - set ((x, y) # queue)"
      unfolding q'(5) by auto
    with fill_inv_cell [OF inv p] False show ?thesis
      by (simp add: cell_set_tile [OF ro h(1) p])
  qed
  show "q \<in> set visited'" if a: "p \<in> set visited' - set queue'" "spreads b p" "q \<in> cells r c"
    "adjacent p q" for p q
  proof (cases "p = (x, y)")
    case True
    with a sp show ?thesis by simp
  next
    case False
    with a(1) have "p \<in> set visited - set ((x, y) # queue)" unfolding q'(5) by auto
    from fill_inv_closed [OF inv this a(2,3,4)] q'(3) show ?thesis by blast
  qed
  show "start \<in> set visited'" if "start \<in> cells r c"
    using fill_inv_start [OF inv that] q'(3) by blast
qed

lemma flood_loop_fill:
  assumes "fill_inv b r c start out queue visited"
  shows "\<exists>visited'. fill_inv b r c start (flood_loop r c out queue visited) [] visited'"
proof (rule flood_loop_invariant [where I = "fill_inv b r c start"], goal_cases)
  case 1
  show ?case by (rule assms)
next
  case (2 out x y queue visited)
  then show ?case by (rule fill_inv_skip)
next
  case (3 out x y queue visited queue' visited')
  note inv = 3(1) and h = fill_inv_head [OF 3(1)]
  from fill_inv_queue [OF inv] have qv: "set queue \<subseteq> set visited" "distinct queue" by simp_all
  note e = enqueue_all_sets [OF 3(6) qv, unfolded around_cells]
  from h(2) fill_inv_visited [OF inv] have reach: "(x, y) \<in> fill_reach b r c start" by blast
  from 3(2-5) h(4) have sp: "spreads b (x, y)" by (simp add: spreads_def)
  have n: "{q \<in> cells r c. adjacent (x, y) q} \<subseteq> fill_reach b r c start"
    using fill_reach.onward [OF reach sp] by blast
  show ?case
  proof (rule fill_inv_reveal [OF inv 3(2,3)])
    from e show "set queue' \<subseteq> set visited'" "distinct queue'" "set visited \<subseteq> set visited'"
      by auto
    from e n fill_inv_visited [OF inv] show "set visited' \<subseteq> fill_reach b r c start" by auto
    from e qv show "set visited' - set queue' = set visited - set queue" by auto
    fix q assume "q \<in> cells r c" "adjacent (x, y) q"
    with e show "q \<in> set visited'" by auto
  qed
next
  case (4 out x y queue visited)
  note inv = 4(1) and h = fill_inv_head [OF 4(1)]
  from fill_inv_queue [OF inv] have qv: "set queue \<subseteq> set visited" "distinct queue" by simp_all
  from 4(4) h(4) have nsp: "\<not> spreads b (x, y)" by (auto simp: spreads_def)
  show ?case
    by (rule fill_inv_reveal [OF inv 4(2,3)])
      (use qv fill_inv_visited [OF inv] nsp in simp_all)
qed

lemma reveal_again: "isRevealed t \<Longrightarrow> t\<lparr>isRevealed := True\<rparr> = t"
  by (cases t) simp

lemma revealFloodFill_exact:
  assumes r: "rect b r c" and pos: "r > 0"
  shows "rect (revealFloodFill b x y) r c"
    and "p \<in> cells r c \<Longrightarrow> cell (revealFloodFill b x y) p =
      (if p \<in> fill_reach b r c (x, y) \<and> \<not> isFlagged (cell b p)
       then (cell b p)\<lparr>isRevealed := True\<rparr> else cell b p)"
proof -
  from assms have d: "int (length b) = r" "int (length (b ! 0)) = c"
    by (auto simp: rect_def)
  obtain q v where e: "enqueue r c ([], []) (x, y) = (q, v)"
    by (cases "enqueue r c ([], []) (x, y)")
  have qv: "q = v" "set v = {(x, y)} \<inter> cells r c" "distinct q"
    using e by (auto simp: enqueue_def split: if_splits)
  have "fill_inv b r c (x, y) b q v"
  proof (rule fill_invI)
    show "rect b r c" by fact
    show "set v \<subseteq> fill_reach b r c (x, y)"
      unfolding qv(2) using fill_reach.origin [of "(x, y)" r c b] by blast
    show "set q \<subseteq> set v" "distinct q" using qv by simp_all
    show "cell b p =
       (if p \<in> set v - set q \<and> \<not> isRevealed (cell b p) \<and> \<not> isFlagged (cell b p)
        then (cell b p)\<lparr>isRevealed := True\<rparr> else cell b p)" for p
      by (simp add: qv(1))
    show "q' \<in> set v" if "p \<in> set v - set q" for p q' using that by (simp add: qv(1))
    show "(x, y) \<in> set v" if "(x, y) \<in> cells r c" using that qv(2) by blast
  qed
  from flood_loop_fill [OF this] obtain v' where
    fin: "fill_inv b r c (x, y) (flood_loop r c b q v) [] v'" by blast
  have res: "revealFloodFill b x y = flood_loop r c b q v"
    by (simp add: revealFloodFill_def d e)
  show "rect (revealFloodFill b x y) r c" unfolding res by (rule fill_inv_rect [OF fin])
  have sub: "u \<in> set v'" if "u \<in> fill_reach b r c (x, y)" for u
    using that
  proof (induction rule: fill_reach.induct)
    case origin
    then show ?case by (rule fill_inv_start [OF fin])
  next
    case (onward p q)
    from fill_inv_closed [OF fin _ onward(2,3,4)] onward(5) show ?case by simp
  qed
  with fill_inv_visited [OF fin] have v': "set v' = fill_reach b r c (x, y)" by blast
  assume p: "p \<in> cells r c"
  from fill_inv_cell [OF fin p] show "cell (revealFloodFill b x y) p =
      (if p \<in> fill_reach b r c (x, y) \<and> \<not> isFlagged (cell b p)
       then (cell b p)\<lparr>isRevealed := True\<rparr> else cell b p)"
    unfolding res v' by (auto simp: reveal_again)
qed

lemma revealFloodFill_skip:
  assumes "rect b r c" and "r > 0"
    and "(x, y) \<notin> cells r c \<or> isRevealed (cell b (x, y)) \<or> isFlagged (cell b (x, y))"
  shows "revealFloodFill b x y = b"
proof -
  from assms have d: "int (length b) = r" "int (length (b ! 0)) = c"
    by (auto simp: rect_def)
  show ?thesis
  proof (cases "(x, y) \<in> cells r c")
    case False
    then have "enqueue r c ([], []) (x, y) = ([], [])" by (auto simp: enqueue_def)
    then show ?thesis by (simp add: revealFloodFill_def d)
  next
    case True
    then have "enqueue r c ([], []) (x, y) = ([(x, y)], [(x, y)])" by (auto simp: enqueue_def)
    with assms(3) True show ?thesis
      by (auto simp: revealFloodFill_def d Let_def cell_simp)
  qed
qed

lemma reachable_run:
  "reachable s \<Longrightarrow> list_all valid_command cmds \<Longrightarrow> reachable (run cmds s)"
  unfolding run_def
  by (induction cmds arbitrary: s) (simp_all add: reachable.step)

lemma adjacent_cells_adjacent:
  "adjacent_cells r c x y = {q \<in> cells r c. adjacent (x, y) q}"
  by (auto simp: adjacent_cells_def adjacent_def)

lemma mine_count_zero:
  assumes "mine_count b r c x y = 0" and "q \<in> cells r c" and "adjacent (x, y) q"
  shows "\<not> isMine (cell b q)"
proof -
  have "finite {p \<in> adjacent_cells r c x y. isMine (cell b p)}"
    using finite_subset [OF adjacent_cells_sub finite_cells] by simp
  with assms(1) have "{p \<in> adjacent_cells r c x y. isMine (cell b p)} = {}"
    by (simp add: mine_count_def)
  with assms(2,3) show ?thesis unfolding adjacent_cells_adjacent by blast
qed

lemma zero_region_safe:
  assumes "consistent b r c" and "\<not> isMine (cell b start)" and "p \<in> zero_region b r c start"
  shows "p \<in> cells r c \<and> adjacentMines (cell b p) = 0 \<and> \<not> isMine (cell b p)"
  using assms(3)
proof (induction rule: zero_region.induct)
  case origin
  with assms(2) show ?case by simp
next
  case (onward p q)
  obtain x y where p: "p = (x, y)" by (cases p)
  from onward.IH consistentD [OF assms(1), of x y] have "mine_count b r c x y = 0"
    by (simp add: p)
  from mine_count_zero [OF this onward(2)] onward p show ?case by simp
qed

lemma fill_reach_region:
  assumes cs: "consistent b r c" and st: "start \<in> cells r c"
    "adjacentMines (cell b start) = 0" "\<not> isMine (cell b start)"
    and hid: "\<And>p. p \<in> zero_region b r c start \<Longrightarrow>
                \<not> isRevealed (cell b p) \<and> \<not> isFlagged (cell b p)"
  shows "fill_reach b r c start = zero_region b r c start \<union> region_border b r c start"
proof (intro equalityI subsetI)
  fix q assume "q \<in> fill_reach b r c start"
  then show "q \<in> zero_region b r c start \<union> region_border b r c start"
  proof (induction rule: fill_reach.induct)
    case origin
    with st show ?case by (simp add: zero_region.origin)
  next
    case (onward p q)
    from onward.IH have "p \<in> zero_region b r c start"
    proof
      assume "p \<in> region_border b r c start"
      then obtain p' where "p' \<in> zero_region b r c start" "adjacent p' p" "p \<in> cells r c"
        by (auto simp: region_border_def)
      with onward(2) show ?thesis by (auto simp: spreads_def intro: zero_region.onward)
    qed
    with onward(3,4) show ?case by (auto simp: region_border_def)
  qed
next
  have sp: "spreads b p" if "p \<in> zero_region b r c start" for p
    using zero_region_safe [OF cs st(3) that] hid [OF that] by (simp add: spreads_def)
  have z: "p \<in> fill_reach b r c start" if "p \<in> zero_region b r c start" for p
    using that
  proof (induction rule: zero_region.induct)
    case origin
    then show ?case by (simp add: fill_reach.origin)
  next
    case (onward p q)
    from fill_reach.onward [OF onward.IH sp [OF onward(1)] onward(2,3)] show ?case .
  qed
  fix q assume "q \<in> zero_region b r c start \<union> region_border b r c start"
  then show "q \<in> fill_reach b r c start"
  proof
    assume "q \<in> zero_region b r c start"
    then show ?thesis by (rule z)
  next
    assume "q \<in> region_border b r c start"
    then obtain p where p: "p \<in> zero_region b r c start" "adjacent p q" "q \<in> cells r c"
      by (auto simp: region_border_def)
    from fill_reach.onward [OF z [OF p(1)] sp [OF p(1)] p(3,2)] show ?thesis .
  qed
qed

text \<open>
  Claim C5, as stated, fails: a tile that is already revealed is skipped and not expanded,
  so the fill does not pass through it. In \<open>walled_game\<close>, a reachable game on a 1 x 5
  board without mines and, by now, without flags, the tile in the middle is revealed and
  the others are hidden; the fill from the left end reveals the two tiles on the left and
  stops, although all five tiles form one region of tiles with no adjacent mine.
\<close>

theorem flood_fill_region_counterexample:
  "reachable walled_game
   \<and> status walled_game = Playing
   \<and> consistent (board walled_game) 1 5
   \<and> filter isFlagged (concat (board walled_game)) = []
   \<and> \<not> isRevealed (cell (board walled_game) (0, 0))
   \<and> \<not> isMine (cell (board walled_game) (0, 0))
   \<and> adjacentMines (cell (board walled_game) (0, 0)) = 0
   \<and> (3, 0) \<in> zero_region (board walled_game) 1 5 (0, 0)
   \<and> board (reveal (\<lambda>i. 0) 9 walled_game 0 0) = revealFloodFill (board walled_game) 0 0
   \<and> \<not> isRevealed (cell (revealFloodFill (board walled_game) 0 0) (3, 0))"
proof -
  have "reachable (initialState 1 5 0 Custom)" by (simp add: reachable.start)
  then have r: "reachable walled_game"
    unfolding walled_game_def by (rule reachable_run) simp
  have d: "rows walled_game = 1" "cols walled_game = 5" by code_simp+
  from game_inv_consistent [OF reachable_inv [OF r]]
  have cs: "consistent (board walled_game) 1 5" by (simp add: d)
  have z: "adjacentMines (cell (board walled_game) (0, 0)) = 0"
    "adjacentMines (cell (board walled_game) (1, 0)) = 0"
    "adjacentMines (cell (board walled_game) (2, 0)) = 0"
    "adjacentMines (cell (board walled_game) (3, 0)) = 0"
    by code_simp+
  have "(0, 0) \<in> zero_region (board walled_game) 1 5 (0, 0)"
    by (rule zero_region.origin) (simp_all add: z)
  then have "(1, 0) \<in> zero_region (board walled_game) 1 5 (0, 0)"
    by (rule zero_region.onward) (simp_all add: z adjacent_def)
  then have "(2, 0) \<in> zero_region (board walled_game) 1 5 (0, 0)"
    by (rule zero_region.onward) (simp_all add: z adjacent_def)
  then have reg: "(3, 0) \<in> zero_region (board walled_game) 1 5 (0, 0)"
    by (rule zero_region.onward) (simp_all add: z adjacent_def)
  have e: "status walled_game = Playing"
    "filter isFlagged (concat (board walled_game)) = []"
    "\<not> isRevealed (cell (board walled_game) (0, 0))"
    "\<not> isMine (cell (board walled_game) (0, 0))"
    "board (reveal (\<lambda>i. 0) 9 walled_game 0 0) = revealFloodFill (board walled_game) 0 0"
    "\<not> isRevealed (cell (revealFloodFill (board walled_game) 0 0) (3, 0))"
    by code_simp+
  from r cs z(1) reg e show ?thesis by blast
qed

text \<open>
  Claim C5, amended. On every board that is a matrix with at least one row, the flood fill
  changes nothing but \<open>isRevealed\<close>, and reveals exactly the unflagged tiles it comes to:
  it comes to the start, and from a tile to its in-bounds neighbours only when that tile
  is hidden, unflagged, not a mine and has \<open>adjacentMines = 0\<close> (a revealed or flagged tile
  is skipped and stops the fill). When the adjacency counts are consistent, the start is
  in bounds, is not a mine and has \<open>adjacentMines = 0\<close>, and no tile of the maximal
  8-connected region of zero-adjacency tiles containing the start is revealed or flagged,
  the tiles revealed are exactly those of that region and those bordering it, flagged
  tiles excepted. The fill is idempotent: started again at any tile that is revealed in
  its result, it returns that result.
\<close>

theorem flood_fill_region:
  assumes "rect b r c" and "r > 0"
  shows "rect (revealFloodFill b x y) r c
     \<and> (\<forall>p \<in> cells r c. cell (revealFloodFill b x y) p =
          (if p \<in> fill_reach b r c (x, y) \<and> \<not> isFlagged (cell b p)
           then (cell b p)\<lparr>isRevealed := True\<rparr> else cell b p))
     \<and> (consistent b r c \<and> (x, y) \<in> cells r c
          \<and> adjacentMines (cell b (x, y)) = 0 \<and> \<not> isMine (cell b (x, y))
          \<and> (\<forall>p \<in> zero_region b r c (x, y).
                \<not> isRevealed (cell b p) \<and> \<not> isFlagged (cell b p))
        \<longrightarrow> (\<forall>p \<in> cells r c. cell (revealFloodFill b x y) p =
              (if p \<in> zero_region b r c (x, y) \<union> region_border b r c (x, y)
                  \<and> \<not> isFlagged (cell b p)
               then (cell b p)\<lparr>isRevealed := True\<rparr> else cell b p)))
     \<and> (\<forall>q \<in> cells r c. isRevealed (cell (revealFloodFill b x y) q) \<longrightarrow>
          revealFloodFill (revealFloodFill b x y) (fst q) (snd q) = revealFloodFill b x y)"
proof (intro conjI impI ballI)
  note ex = revealFloodFill_exact [OF assms]
  show r': "rect (revealFloodFill b x y) r c" by (rule ex(1))
  show "cell (revealFloodFill b x y) p =
          (if p \<in> fill_reach b r c (x, y) \<and> \<not> isFlagged (cell b p)
           then (cell b p)\<lparr>isRevealed := True\<rparr> else cell b p)" if "p \<in> cells r c" for p
    by (rule ex(2) [OF that])
  show "cell (revealFloodFill b x y) p =
          (if p \<in> zero_region b r c (x, y) \<union> region_border b r c (x, y)
              \<and> \<not> isFlagged (cell b p)
           then (cell b p)\<lparr>isRevealed := True\<rparr> else cell b p)"
    if h: "consistent b r c \<and> (x, y) \<in> cells r c
          \<and> adjacentMines (cell b (x, y)) = 0 \<and> \<not> isMine (cell b (x, y))
          \<and> (\<forall>p \<in> zero_region b r c (x, y).
                \<not> isRevealed (cell b p) \<and> \<not> isFlagged (cell b p))"
      and p: "p \<in> cells r c" for p
  proof -
    from h have "fill_reach b r c (x, y)
        = zero_region b r c (x, y) \<union> region_border b r c (x, y)"
      by (intro fill_reach_region) blast+
    with ex(2) [OF p] show ?thesis by simp
  qed
  show "revealFloodFill (revealFloodFill b x y) (fst q) (snd q) = revealFloodFill b x y"
    if "q \<in> cells r c" "isRevealed (cell (revealFloodFill b x y) q)" for q
    by (rule revealFloodFill_skip [OF r' assms(2)]) (use that in simp)
qed

theorem flood_fill_region_witness:
  "rect (board (placeMinesAfterFirstClick (\<lambda>i. i) (initialState 4 4 3 Custom) 0 0)) 4 4
   \<and> consistent (board (placeMinesAfterFirstClick (\<lambda>i. i) (initialState 4 4 3 Custom) 0 0)) 4 4
   \<and> (1, 0) \<in> region_border (board (placeMinesAfterFirstClick (\<lambda>i. i) (initialState 4 4 3 Custom) 0 0)) 4 4 (0, 0)
   \<and> adjacentMines (cell (board (placeMinesAfterFirstClick (\<lambda>i. i) (initialState 4 4 3 Custom) 0 0)) (1, 0)) = 2
   \<and> \<not> isRevealed (cell (board (placeMinesAfterFirstClick (\<lambda>i. i) (initialState 4 4 3 Custom) 0 0)) (1, 0))
   \<and> isRevealed (cell (revealFloodFill (board (placeMinesAfterFirstClick (\<lambda>i. i) (initialState 4 4 3 Custom) 0 0)) 0 0) (1, 0))
   \<and> revealFloodFill (revealFloodFill (board (placeMinesAfterFirstClick (\<lambda>i. i) (initialState 4 4 3 Custom) 0 0)) 0 0) 1 0
       = revealFloodFill (board (placeMinesAfterFirstClick (\<lambda>i. i) (initialState 4 4 3 Custom) 0 0)) 0 0"
proof -
  let ?s0 = "initialState 4 4 3 Custom"
  let ?b = "board (placeMinesAfterFirstClick (\<lambda>i. i) ?s0 0 0)"
  have wf: "wf_state ?s0" by (simp add: wf_initialState)
  note pm = placeMines_board [OF wf, where rnd = "\<lambda>i. i" and sx = 0 and sy = 0]
  from pm(1,3) have r: "rect ?b 4 4" and cs: "consistent ?b 4 4" by simp_all
  have c: "(0, 0) \<in> cells 4 4" "(1, 0) \<in> cells 4 4" by simp_all
  have e: "adjacentMines (cell ?b (0, 0)) = 0" "\<not> isMine (cell ?b (0, 0))"
    "adjacentMines (cell ?b (1, 0)) = 2" "\<not> isRevealed (cell ?b (1, 0))"
    "\<not> isFlagged (cell ?b (1, 0))"
    by code_simp+
  have hid: "\<forall>p \<in> zero_region ?b 4 4 (0, 0). \<not> isRevealed (cell ?b p) \<and> \<not> isFlagged (cell ?b p)"
  proof
    fix p assume "p \<in> zero_region ?b 4 4 (0, 0)"
    then have p: "(fst p, snd p) \<in> cells 4 4"
      using zero_region_safe [OF cs e(2)] by simp
    from pm(2) [of "fst p" "snd p"] p cell_initialState [OF p, of 3 Custom]
    show "\<not> isRevealed (cell ?b p) \<and> \<not> isFlagged (cell ?b p)" by simp
  qed
  have z0: "(0, 0) \<in> zero_region ?b 4 4 (0, 0)"
    by (rule zero_region.origin) (simp_all add: e)
  have "adjacent (0, 0) (1, 0)" by (simp add: adjacent_def)
  with z0 c(2) have bd: "(1, 0) \<in> region_border ?b 4 4 (0, 0)"
    unfolding region_border_def by blast
  have t: "rect (revealFloodFill ?b 0 0) 4 4
     \<and> (\<forall>p \<in> cells 4 4. cell (revealFloodFill ?b 0 0) p =
          (if p \<in> fill_reach ?b 4 4 (0, 0) \<and> \<not> isFlagged (cell ?b p)
           then (cell ?b p)\<lparr>isRevealed := True\<rparr> else cell ?b p))
     \<and> (consistent ?b 4 4 \<and> (0, 0) \<in> cells 4 4
          \<and> adjacentMines (cell ?b (0, 0)) = 0 \<and> \<not> isMine (cell ?b (0, 0))
          \<and> (\<forall>p \<in> zero_region ?b 4 4 (0, 0).
                \<not> isRevealed (cell ?b p) \<and> \<not> isFlagged (cell ?b p))
        \<longrightarrow> (\<forall>p \<in> cells 4 4. cell (revealFloodFill ?b 0 0) p =
              (if p \<in> zero_region ?b 4 4 (0, 0) \<union> region_border ?b 4 4 (0, 0)
                  \<and> \<not> isFlagged (cell ?b p)
               then (cell ?b p)\<lparr>isRevealed := True\<rparr> else cell ?b p)))
     \<and> (\<forall>q \<in> cells 4 4. isRevealed (cell (revealFloodFill ?b 0 0) q) \<longrightarrow>
          revealFloodFill (revealFloodFill ?b 0 0) (fst q) (snd q) = revealFloodFill ?b 0 0)"
    by (rule flood_fill_region [OF r]) simp
  have H: "consistent ?b 4 4 \<and> (0, 0) \<in> cells 4 4
      \<and> adjacentMines (cell ?b (0, 0)) = 0 \<and> \<not> isMine (cell ?b (0, 0))
      \<and> (\<forall>p \<in> zero_region ?b 4 4 (0, 0). \<not> isRevealed (cell ?b p) \<and> \<not> isFlagged (cell ?b p))"
    using cs c(1) e(1,2) hid by (intro conjI)
  note reg = mp [OF t [THEN conjunct2, THEN conjunct2, THEN conjunct1] H]
  from bspec [OF reg c(2)] bd e(5)
  have rev: "isRevealed (cell (revealFloodFill ?b 0 0) (1, 0))" by simp
  note idem = t [THEN conjunct2, THEN conjunct2, THEN conjunct2]
  from bspec [OF idem c(2)] rev
  have "revealFloodFill (revealFloodFill ?b 0 0) 1 0 = revealFloodFill ?b 0 0" by simp
  with r cs bd e rev show ?thesis by blast
qed

end
